theory Spec2Isabelle
  imports Complex_Main "HOL-Library.FSet"
begin

section \<open>Data model\<close>

text \<open>
  The three simulation scripts (\<^verbatim>\<open>step6_run_calibrated_simulation.py\<close>,
  \<^verbatim>\<open>step8_what_if_highway_closure.py\<close>, \<^verbatim>\<open>step9c_congestion_simulation.py\<close>) share one
  shape: a \<^verbatim>\<open>CityModel\<close> holding a road graph, a manual grid (node to set of agents) and
  an agent position tracker, and a \<^verbatim>\<open>VehicleAgent\<close> with a position.

  Python exceptions are values of \<open>pyerr\<close>; a method that can raise returns
  \<open>pyerr + result\<close>. Python floats are read as real numbers. The last value of \<open>pyerr\<close>
  is no exception of Python: \<open>NonFiniteFloat\<close> marks the one place where this reading
  ends, a stored speed or base travel time that is infinite or not a number. The source
  goes on with such a float; the model stops there, so that no theorem speaks about a
  travel time it cannot represent.
\<close>

datatype pyerr =
  KeyError | IndexError | ValueError | TypeError | OverflowError | ZeroDivisionError
  | NetworkXNoPath | NodeNotFound | NetworkXError
  | NonFiniteFloat

type_synonym node = nat

text \<open>
  A \<^verbatim>\<open>MultiDiGraph\<close>: its nodes in insertion order and its edges as
  \<^verbatim>\<open>G.edges(keys=True, data=True)\<close> lists them, \<open>(u, v, k, data)\<close>.
\<close>

record 'd graph =
  nodes :: "node list"
  edges :: "(node \<times> node \<times> nat \<times> 'd) list"

text \<open>The attribute dictionary of an edge of step9c once \<^verbatim>\<open>CityModel.setup\<close> has cast it.\<close>

record edge_data =
  lanes :: int
  speed_kph :: real
  base_travel_time :: real
  travel_time :: real

text \<open>
  \<^verbatim>\<open>VehicleAgent\<close>: \<open>pos\<close> is \<open>None\<close> until the model places the agent (step8, step9c);
  \<open>destination\<close> and \<open>path\<close> belong to the routing agents of step8 and step9c.
\<close>

record vehicle =
  aid :: nat
  pos :: "node option"

record agent = vehicle +
  destination :: node
  path :: "node list"

text \<open>
  \<^verbatim>\<open>CityModel\<close>: \<open>grid\<close> is the dictionary from node to the set of agents standing there
  (agents are kept by their identifier), \<open>rng\<close> is the state of \<^verbatim>\<open>model.random\<close>,
  \<open>t\<close> the step counter of the framework.
\<close>

record ('d, 'r) model =
  G :: "'d graph"
  graph_nodes :: "node list"
  grid :: "node \<rightharpoonup> nat fset"
  agent_positions :: "nat \<rightharpoonup> node"
  rng :: 'r
  t :: nat

definition CAPACITY_PER_LANE :: int where
  "CAPACITY_PER_LANE = 10"

definition RECALCULATE_PATH_STEPS :: nat where
  "RECALCULATE_PATH_STEPS = 5"

section \<open>Movement on the manual grid\<close>

text \<open>
  \<^verbatim>\<open>CityModel.move_agent\<close> (identical in the three scripts):
  \<^verbatim>\<open>
    current_pos = agent.pos
    self.grid[current_pos].remove(agent)
    self.grid[new_pos].add(agent)
    agent.pos = new_pos
    self.agent_positions[agent.id] = new_pos
  \<close>
  A dictionary lookup of a missing key and \<^verbatim>\<open>set.remove\<close> of a missing element raise
  \<^verbatim>\<open>KeyError\<close>.
\<close>

definition move_agent ::
  "('d, 'r) model \<Rightarrow> 'a vehicle_scheme \<Rightarrow> node
    \<Rightarrow> pyerr + (('d, 'r) model \<times> 'a vehicle_scheme)" where
  "move_agent m a new_pos =
     (case pos a of
        None \<Rightarrow> Inl KeyError
      | Some current_pos \<Rightarrow>
          (case grid m current_pos of
             None \<Rightarrow> Inl KeyError
           | Some here \<Rightarrow>
               if aid a |\<notin>| here then Inl KeyError
               else
                 let g1 = (grid m)(current_pos \<mapsto> here |-| {|aid a|}) in
                 (case g1 new_pos of
                    None \<Rightarrow> Inl KeyError
                  | Some there \<Rightarrow>
                      Inr (m\<lparr>grid := g1(new_pos \<mapsto> finsert (aid a) there),
                              agent_positions := (agent_positions m)(aid a \<mapsto> new_pos)\<rparr>,
                           a\<lparr>pos := Some new_pos\<rparr>))))"

section \<open>The random source and the router\<close>

text \<open>
  \<^verbatim>\<open>model.random\<close> is a \<^verbatim>\<open>random.Random\<close>: library code. Its generator is a
  parameter of the model: a state \<open>'r\<close> and two ways to draw an index below \<open>n\<close> from it,
  the one behind \<^verbatim>\<open>choice\<close> and the one behind \<^verbatim>\<open>choices\<close>. Both return an index in
  range, which the model enforces by reducing the drawn number modulo \<open>n\<close>.
  \<^verbatim>\<open>choice\<close> on an empty sequence raises \<^verbatim>\<open>IndexError\<close>, and so does \<^verbatim>\<open>choices\<close> when
  it has to draw from an empty population.
\<close>

record 'r random_source =
  randbelow :: "'r \<Rightarrow> nat \<Rightarrow> nat \<times> 'r"
  randindex :: "'r \<Rightarrow> nat \<Rightarrow> nat \<times> 'r"

definition choice :: "'r random_source \<Rightarrow> 'r \<Rightarrow> 'a list \<Rightarrow> pyerr + ('a \<times> 'r)" where
  "choice R r xs =
     (if xs = [] then Inl IndexError
      else (case randbelow R r (length xs) of (i, r') \<Rightarrow> Inr (xs ! (i mod length xs), r')))"

fun choices :: "'r random_source \<Rightarrow> 'r \<Rightarrow> 'a list \<Rightarrow> nat \<Rightarrow> pyerr + ('a list \<times> 'r)" where
  "choices R r xs 0 = Inr ([], r)"
| "choices R r xs (Suc k) =
     (if xs = [] then Inl IndexError
      else (case randindex R r (length xs) of
              (i, r') \<Rightarrow>
                (case choices R r' xs k of
                   Inl e \<Rightarrow> Inl e
                 | Inr (ys, r'') \<Rightarrow> Inr (xs ! (i mod length xs) # ys, r''))))"

text \<open>
  \<^verbatim>\<open>nx.shortest_path(G, source, target, weight)\<close> is library code as well: the router is a
  parameter, given the weight attribute as a function on the edge data. It returns the
  node list of a path, source first, or raises.
\<close>

type_synonym 'd router = "('d \<Rightarrow> real) \<Rightarrow> 'd graph \<Rightarrow> node \<Rightarrow> node \<Rightarrow> pyerr + node list"

section \<open>The router\<close>

text \<open>
  Modelled from the spec: \<^verbatim>\<open>nx.shortest_path\<close> (the Router of the specification) is not
  under \<^verbatim>\<open>src/\<close>. The specification words it so: a single-source shortest-path
  computation (Dijkstra) over the current edge weights, where the weight of \<open>(tail, head)\<close>
  is that of the minimum-weight parallel edge; a missing endpoint is reported
  (\<^verbatim>\<open>NodeNotFound\<close>) and so is an unreachable target (\<^verbatim>\<open>NetworkXNoPath\<close>). As the library
  does, the result lists the whole path, source first; \<^verbatim>\<open>calculate_new_path\<close> drops the
  source. Every node carries a label, its tentative distance and the path that reaches it;
  a node is finished when it is taken off the frontier with the smallest label, ties going
  to the node listed first.
\<close>

definition out_edges :: "('d \<Rightarrow> real) \<Rightarrow> 'd graph \<Rightarrow> node \<Rightarrow> (node \<times> real) list" where
  "out_edges w g u = map (\<lambda>(u', v, k, d). (v, w d)) (filter (\<lambda>(u', v, k, d). u' = u) (edges g))"

text \<open>
  Modelled from the spec: \<open>edge_weight(tail, head)\<close> is the weight of the minimum-weight
  parallel edge; there is none when no edge joins the two nodes. The weight of a node list
  adds the edge weights of its consecutive nodes.
\<close>

definition edge_weight :: "('d \<Rightarrow> real) \<Rightarrow> 'd graph \<Rightarrow> node \<Rightarrow> node \<Rightarrow> real option" where
  "edge_weight w g u v =
     (case map snd (filter (\<lambda>(v', c). v' = v) (out_edges w g u)) of
        [] \<Rightarrow> None
      | c # cs \<Rightarrow> Some (fold min cs c))"

fun path_weight :: "('d \<Rightarrow> real) \<Rightarrow> 'd graph \<Rightarrow> node list \<Rightarrow> real option" where
  "path_weight w g [] = None"
| "path_weight w g [x] = Some 0"
| "path_weight w g (x # y # rest) =
     (case edge_weight w g x y of
        None \<Rightarrow> None
      | Some c \<Rightarrow> (case path_weight w g (y # rest) of None \<Rightarrow> None | Some c' \<Rightarrow> Some (c + c')))"

text \<open>
  Modelled from the spec: the relaxation of Dijkstra's algorithm. Relaxing the edge
  \<open>(u, v)\<close> of weight \<open>c\<close>, with \<open>u\<close> labelled \<open>(du, pu)\<close>, gives an unfinished \<open>v\<close> the label
  \<open>(du + c, pu @ [v])\<close> when \<open>v\<close> has no label or a larger one.
\<close>

type_synonym labels = "node \<rightharpoonup> real \<times> node list"

definition relax_edge :: "real \<Rightarrow> node list \<Rightarrow> node list \<Rightarrow> node \<times> real \<Rightarrow> labels \<Rightarrow> labels" where
  "relax_edge du pu finished e seen =
     (case e of
        (v, c) \<Rightarrow>
          if v \<in> set finished then seen
          else (case seen v of
                  None \<Rightarrow> seen(v \<mapsto> (du + c, pu @ [v]))
                | Some (dv, pv) \<Rightarrow> if du + c < dv then seen(v \<mapsto> (du + c, pu @ [v])) else seen))"

fun relax :: "real \<Rightarrow> node list \<Rightarrow> node list \<Rightarrow> (node \<times> real) list \<Rightarrow> labels \<Rightarrow> labels" where
  "relax du pu finished [] seen = seen"
| "relax du pu finished (e # es) seen = relax du pu finished es (relax_edge du pu finished e seen)"

text \<open>
  Modelled from the spec: the next node to finish is the first node of the frontier (the
  labelled, unfinished nodes, in the order of the graph) with the smallest label.
\<close>

definition label_dist :: "labels \<Rightarrow> node \<Rightarrow> real" where
  "label_dist seen v = (case seen v of None \<Rightarrow> 0 | Some (d, p) \<Rightarrow> d)"

fun pick_min :: "(node \<Rightarrow> real) \<Rightarrow> node \<Rightarrow> node list \<Rightarrow> node" where
  "pick_min f best [] = best"
| "pick_min f best (x # xs) = pick_min f (if f x < f best then x else best) xs"

lemma pick_min_mem: "pick_min f best xs \<in> set (best # xs)"
  by (induction xs arbitrary: best) auto

lemma pick_min_le: "y \<in> set (best # xs) \<Longrightarrow> f (pick_min f best xs) \<le> f y"
proof (induction xs arbitrary: best y)
  case Nil
  then show ?case by simp
next
  case (Cons x xs)
  let ?b = "if f x < f best then x else best"
  have le_best: "f (pick_min f ?b xs) \<le> f ?b"
    by (rule Cons.IH) simp
  show ?case
  proof (cases "y \<in> set xs")
    case True
    then have "f (pick_min f ?b xs) \<le> f y" by (intro Cons.IH) simp
    then show ?thesis by simp
  next
    case False
    with Cons.prems have "y = best \<or> y = x" by auto
    then show ?thesis
      using le_best by (auto split: if_splits)
  qed
qed

definition frontier :: "'d graph \<Rightarrow> node list \<Rightarrow> labels \<Rightarrow> node list" where
  "frontier g finished seen = filter (\<lambda>v. v \<notin> set finished \<and> seen v \<noteq> None) (nodes g)"

text \<open>
  Modelled from the spec: the loop of Dijkstra's algorithm. It ends when the frontier is
  empty; every round finishes one more node of the graph, which bounds the rounds.
\<close>

function dijkstra :: "('d \<Rightarrow> real) \<Rightarrow> 'd graph \<Rightarrow> node list \<Rightarrow> labels \<Rightarrow> labels" where
  "dijkstra w g finished seen =
     (case frontier g finished seen of
        [] \<Rightarrow> seen
      | c # cs \<Rightarrow>
          (let u = pick_min (label_dist seen) c cs;
               (du, pu) = the (seen u)
           in dijkstra w g (u # finished) (relax du pu (u # finished) (out_edges w g u) seen)))"
  by pat_completeness auto
termination
proof (relation "measure (\<lambda>(w, g, finished, seen). length (filter (\<lambda>v. v \<notin> set finished) (nodes g)))")
  show "wf (measure (\<lambda>(w, g, finished, seen). length (filter (\<lambda>v. v \<notin> set finished) (nodes g))))"
    by simp
next
  fix w :: "'d \<Rightarrow> real" and g :: "'d graph" and finished seen c cs u x du pu
  assume fr: "frontier g finished seen = c # cs" and u: "u = pick_min (label_dist seen) c cs"
  have "u \<in> set (frontier g finished seen)" using pick_min_mem [of "label_dist seen" c cs] fr u by simp
  then have mem: "u \<in> set (nodes g)" and nf: "u \<notin> set finished" by (auto simp: frontier_def)
  have "length (filter (\<lambda>v. v \<notin> set (u # finished)) (nodes g))
        < length (filter (\<lambda>v. v \<notin> set finished) (nodes g))"
  proof -
    have eq: "filter (\<lambda>v. v \<notin> set (u # finished)) (nodes g)
          = filter (\<lambda>v. v \<noteq> u) (filter (\<lambda>v. v \<notin> set finished) (nodes g))"
      by (auto intro: filter_cong)
    have "u \<in> set (filter (\<lambda>v. v \<notin> set finished) (nodes g))" using mem nf by simp
    then have "length (filter (\<lambda>v. v \<noteq> u) (filter (\<lambda>v. v \<notin> set finished) (nodes g)))
        < length (filter (\<lambda>v. v \<notin> set finished) (nodes g))"
      by (rule length_filter_less) simp
    then show ?thesis unfolding eq .
  qed
  then show "((w, g, u # finished, relax du pu (u # finished) (out_edges w g u) seen), w, g, finished, seen)
       \<in> measure (\<lambda>(w, g, finished, seen). length (filter (\<lambda>v. v \<notin> set finished) (nodes g)))"
    by simp
qed

text \<open>
  Modelled from the spec: the contract of the Router, \<^verbatim>\<open>NodeNotFound\<close> for a missing
  endpoint, \<^verbatim>\<open>NetworkXNoPath\<close> for an unreachable target, and else the path of the target's
  label.
\<close>

definition shortest_path :: "'d router" where
  "shortest_path w g source target =
     (if source \<notin> set (nodes g) \<or> target \<notin> set (nodes g) then Inl NodeNotFound
      else (case dijkstra w g [] [source \<mapsto> (0, [source])] target of
              None \<Rightarrow> Inl NetworkXNoPath
            | Some (d, p) \<Rightarrow> Inr p))"

section \<open>The routing agent (step8, step9c)\<close>

text \<open>
  \<^verbatim>\<open>VehicleAgent.calculate_new_path\<close>:
  \<^verbatim>\<open>
    if self.pos is None:
        self.path = []
        return
    try:
        self.path = nx.shortest_path(self.model.G, source=self.pos,
                                     target=self.destination, weight='travel_time')
        self.path.pop(0)
    except (nx.NetworkXNoPath, nx.NodeNotFound):
        self.destination = self.model.random.choice(self.model.graph_nodes)
        self.path = []
  \<close>
  step8 differs in the weight only (\<^verbatim>\<open>'length'\<close>). Any other exception of the router, and
  the \<^verbatim>\<open>IndexError\<close> of \<^verbatim>\<open>pop(0)\<close> on an empty list, leaves the method.
\<close>

definition calculate_new_path ::
  "'d router \<Rightarrow> ('d \<Rightarrow> real) \<Rightarrow> 'r random_source \<Rightarrow> ('d, 'r) model \<Rightarrow> agent
    \<Rightarrow> pyerr + (('d, 'r) model \<times> agent)" where
  "calculate_new_path sp w R m a =
     (case pos a of
        None \<Rightarrow> Inr (m, a\<lparr>path := []\<rparr>)
      | Some p \<Rightarrow>
          (case sp w (G m) p (destination a) of
             Inr [] \<Rightarrow> Inl IndexError
           | Inr (x # rest) \<Rightarrow> Inr (m, a\<lparr>path := rest\<rparr>)
           | Inl e \<Rightarrow>
               if e = NetworkXNoPath \<or> e = NodeNotFound then
                 (case choice R (rng m) (graph_nodes m) of
                    Inl e' \<Rightarrow> Inl e'
                  | Inr (d, r') \<Rightarrow> Inr (m\<lparr>rng := r'\<rparr>, a\<lparr>destination := d, path := []\<rparr>))
               else Inl e))"

text \<open>The last two lines of \<^verbatim>\<open>step\<close>: \<^verbatim>\<open>new_pos = self.path.pop(0)\<close>, then the move.\<close>

definition pop_and_move ::
  "('d, 'r) model \<Rightarrow> agent \<Rightarrow> pyerr + (('d, 'r) model \<times> agent)" where
  "pop_and_move m a =
     (case path a of
        [] \<Rightarrow> Inl IndexError
      | new_pos # rest \<Rightarrow> move_agent m (a\<lparr>path := rest\<rparr>) new_pos)"

text \<open>
  The part of \<^verbatim>\<open>step\<close> that step8 and step9c share:
  \<^verbatim>\<open>
    if not self.path:
        self.destination = self.model.random.choice(self.model.graph_nodes)
        self.calculate_new_path()
        if not self.path:
            return
    new_pos = self.path.pop(0)
    self.model.move_agent(self, new_pos)
  \<close>
\<close>

definition follow_path ::
  "'d router \<Rightarrow> ('d \<Rightarrow> real) \<Rightarrow> 'r random_source \<Rightarrow> ('d, 'r) model \<Rightarrow> agent
    \<Rightarrow> pyerr + (('d, 'r) model \<times> agent)" where
  "follow_path sp w R m a =
     (if path a = [] then
        (case choice R (rng m) (graph_nodes m) of
           Inl e \<Rightarrow> Inl e
         | Inr (d, r') \<Rightarrow>
             (case calculate_new_path sp w R (m\<lparr>rng := r'\<rparr>) (a\<lparr>destination := d\<rparr>) of
                Inl e \<Rightarrow> Inl e
              | Inr (m', a') \<Rightarrow> if path a' = [] then Inr (m', a') else pop_and_move m' a'))
      else pop_and_move m a)"

text \<open>
  \<^verbatim>\<open>VehicleAgent.step\<close> of step9c starts with
  \<^verbatim>\<open>if self.model.t % RECALCULATE_PATH_STEPS == 0: self.calculate_new_path()\<close>.
\<close>

definition step9c ::
  "edge_data router \<Rightarrow> 'r random_source \<Rightarrow> (edge_data, 'r) model \<Rightarrow> agent
    \<Rightarrow> pyerr + ((edge_data, 'r) model \<times> agent)" where
  "step9c sp R m a =
     (if t m mod RECALCULATE_PATH_STEPS = 0 then
        (case calculate_new_path sp travel_time R m a of
           Inl e \<Rightarrow> Inl e
         | Inr (m', a') \<Rightarrow> follow_path sp travel_time R m' a')
      else follow_path sp travel_time R m a)"

text \<open>\<^verbatim>\<open>self.agents.step()\<close>: the agents step one after the other, in the order of the list.\<close>

fun step_all ::
  "('m \<Rightarrow> 'a \<Rightarrow> pyerr + ('m \<times> 'a)) \<Rightarrow> 'm \<Rightarrow> 'a list \<Rightarrow> pyerr + ('m \<times> 'a list)" where
  "step_all f m [] = Inr (m, [])"
| "step_all f m (a # as) =
     (case f m a of
        Inl e \<Rightarrow> Inl e
      | Inr (m', a') \<Rightarrow>
          (case step_all f m' as of
             Inl e \<Rightarrow> Inl e
           | Inr (m'', as') \<Rightarrow> Inr (m'', a' # as')))"

section \<open>Congestion recompute (step9c)\<close>

text \<open>
  \<^verbatim>\<open>CityModel.update\<close> of step9c. First every edge is reset to its base travel time, then
  \<^verbatim>\<open>node_congestion = {node: len(agents) for node, agents in self.grid.items() if len(agents) > 0}\<close>
  is built, then every edge whose two endpoints hold more agents than its capacity gets
  \<^verbatim>\<open>base_travel_time * (total_congestion / capacity)\<close>. The division is Python's true
  division and raises on a zero capacity. The method ends by reading \<^verbatim>\<open>self.agents[0]\<close>.
\<close>

definition reset_travel_times ::
  "(node \<times> node \<times> nat \<times> edge_data) list \<Rightarrow> (node \<times> node \<times> nat \<times> edge_data) list" where
  "reset_travel_times es =
     map (\<lambda>(u, v, k, d). (u, v, k, d\<lparr>travel_time := base_travel_time d\<rparr>)) es"

definition node_congestion :: "(node \<rightharpoonup> nat fset) \<Rightarrow> (node \<rightharpoonup> nat)" where
  "node_congestion gr =
     (\<lambda>n. case gr n of
             None \<Rightarrow> None
           | Some agents \<Rightarrow> if fcard agents > 0 then Some (fcard agents) else None)"

definition dict_get :: "('k \<rightharpoonup> 'v) \<Rightarrow> 'k \<Rightarrow> 'v \<Rightarrow> 'v" where
  "dict_get d k dflt = (case d k of None \<Rightarrow> dflt | Some v \<Rightarrow> v)"

fun apply_congestion ::
  "(node \<rightharpoonup> nat) \<Rightarrow> (node \<times> node \<times> nat \<times> edge_data) list
    \<Rightarrow> pyerr + (node \<times> node \<times> nat \<times> edge_data) list" where
  "apply_congestion nc [] = Inr []"
| "apply_congestion nc ((u, v, k, d) # es) =
     (let cong_u = dict_get nc u 0;
          cong_v = dict_get nc v 0;
          total_congestion = int (cong_u + cong_v);
          capacity = lanes d * CAPACITY_PER_LANE
      in if total_congestion > capacity then
           if capacity = 0 then Inl ZeroDivisionError
           else
             (let congestion_factor = real_of_int total_congestion / real_of_int capacity
              in case apply_congestion nc es of
                   Inl e \<Rightarrow> Inl e
                 | Inr es' \<Rightarrow>
                     Inr ((u, v, k, d\<lparr>travel_time := base_travel_time d * congestion_factor\<rparr>) # es'))
         else
           (case apply_congestion nc es of
              Inl e \<Rightarrow> Inl e
            | Inr es' \<Rightarrow> Inr ((u, v, k, d) # es')))"

definition update ::
  "(edge_data, 'r) model \<Rightarrow> 'a list \<Rightarrow> pyerr + (edge_data, 'r) model" where
  "update m agents =
     (case apply_congestion (node_congestion (grid m)) (reset_travel_times (edges (G m))) of
        Inl e \<Rightarrow> Inl e
      | Inr es \<Rightarrow>
          if agents = [] then Inl IndexError
          else Inr (m\<lparr>G := (G m)\<lparr>edges := es\<rparr>\<rparr>))"

subsection \<open>The congestion rule as the specification words it\<close>

definition occupancy :: "(node \<rightharpoonup> nat fset) \<Rightarrow> node \<Rightarrow> nat" where
  "occupancy gr n = (case gr n of None \<Rightarrow> 0 | Some agents \<Rightarrow> fcard agents)"

definition spec_current_time :: "(node \<rightharpoonup> nat fset) \<Rightarrow> node \<Rightarrow> node \<Rightarrow> edge_data \<Rightarrow> real" where
  "spec_current_time gr u v d =
     (let load = int (occupancy gr u + occupancy gr v);
          capacity = lanes d * CAPACITY_PER_LANE
      in if load > capacity then base_travel_time d * (real_of_int load / real_of_int capacity)
         else base_travel_time d)"

definition spec_recompute ::
  "(node \<rightharpoonup> nat fset) \<Rightarrow> (node \<times> node \<times> nat \<times> edge_data) list
    \<Rightarrow> (node \<times> node \<times> nat \<times> edge_data) list" where
  "spec_recompute gr es =
     map (\<lambda>(u, v, k, d). (u, v, k, d\<lparr>travel_time := spec_current_time gr u v d\<rparr>)) es"

section \<open>Loading and initial placement (step9c)\<close>

text \<open>
  What \<^verbatim>\<open>float\<close> returns: a finite number, an infinity (\<^verbatim>\<open>float('inf')\<close>,
  \<^verbatim>\<open>float('-inf')\<close>, or a numeral too large for a float such as \<^verbatim>\<open>'1e999'\<close>) or
  \<^verbatim>\<open>float('nan')\<close>.
\<close>

datatype pyfloat = Finite real | PosInf | NegInf | NaN

text \<open>
  An attribute as \<^verbatim>\<open>ox.load_graphml\<close> hands it over: a string, a float, or a list.
  \<^verbatim>\<open>float\<close> on a string is the library's parser, a parameter \<open>flt\<close> of the model;
  \<^verbatim>\<open>float\<close> on a float returns it and \<^verbatim>\<open>float\<close> on a list raises \<^verbatim>\<open>TypeError\<close>.
  \<^verbatim>\<open>int\<close> on a finite float truncates toward zero; on an infinity it raises
  \<^verbatim>\<open>OverflowError\<close> and on \<^verbatim>\<open>nan\<close> it raises \<^verbatim>\<open>ValueError\<close>.
\<close>

datatype attr = Str string | Num pyfloat | Lst "attr list"

record raw_edge_data =
  lanes_attr :: "attr option"
  speed_kph_attr :: "attr option"
  base_travel_time_attr :: "attr option"

definition py_float :: "(string \<Rightarrow> pyerr + pyfloat) \<Rightarrow> attr \<Rightarrow> pyerr + pyfloat" where
  "py_float flt x = (case x of Str s \<Rightarrow> flt s | Num r \<Rightarrow> Inr r | Lst xs \<Rightarrow> Inl TypeError)"

definition truncate_toward_zero :: "real \<Rightarrow> int" where
  "truncate_toward_zero x = (if 0 \<le> x then \<lfloor>x\<rfloor> else \<lceil>x\<rceil>)"

definition py_int :: "pyfloat \<Rightarrow> pyerr + int" where
  "py_int x =
     (case x of
        Finite r \<Rightarrow> Inr (truncate_toward_zero r)
      | PosInf \<Rightarrow> Inl OverflowError
      | NegInf \<Rightarrow> Inl OverflowError
      | NaN \<Rightarrow> Inl ValueError)"

text \<open>
  \<^verbatim>\<open>
    lanes_str = data.get('lanes', '1')
    if isinstance(lanes_str, list):
        lanes_str = lanes_str[0]
    data['lanes'] = int(float(lanes_str))
  \<close>
\<close>

definition cast_lanes :: "(string \<Rightarrow> pyerr + pyfloat) \<Rightarrow> attr option \<Rightarrow> pyerr + int" where
  "cast_lanes flt stored =
     (let lanes_str = (case stored of None \<Rightarrow> Str ''1'' | Some x \<Rightarrow> x) in
      case (case lanes_str of
              Lst [] \<Rightarrow> Inl IndexError
            | Lst (x # xs) \<Rightarrow> Inr x
            | other \<Rightarrow> Inr other) of
        Inl e \<Rightarrow> Inl e
      | Inr lanes_str' \<Rightarrow>
          (case py_float flt lanes_str' of Inl e \<Rightarrow> Inl e | Inr x \<Rightarrow> py_int x))"

text \<open>
  The body of the cast loop of \<^verbatim>\<open>CityModel.setup\<close>: lanes, then
  \<^verbatim>\<open>float(data.get('speed_kph', '30'))\<close>, then \<^verbatim>\<open>float(data.get('base_travel_time', '10.0'))\<close>,
  then \<^verbatim>\<open>data['travel_time'] = data['base_travel_time']\<close>. The three casts raise in this
  order. Where they all return and a speed or base travel time is not finite, the model
  stops with \<open>NonFiniteFloat\<close>.
\<close>

definition finite_reading :: "pyfloat \<Rightarrow> pyerr + real" where
  "finite_reading x = (case x of Finite r \<Rightarrow> Inr r | other \<Rightarrow> Inl NonFiniteFloat)"

definition cast_edge :: "(string \<Rightarrow> pyerr + pyfloat) \<Rightarrow> raw_edge_data \<Rightarrow> pyerr + edge_data" where
  "cast_edge flt data =
     (case cast_lanes flt (lanes_attr data) of
        Inl e \<Rightarrow> Inl e
      | Inr l \<Rightarrow>
          (case py_float flt (case speed_kph_attr data of None \<Rightarrow> Str ''30'' | Some x \<Rightarrow> x) of
             Inl e \<Rightarrow> Inl e
           | Inr speed \<Rightarrow>
               (case py_float flt
                       (case base_travel_time_attr data of None \<Rightarrow> Str ''10.0'' | Some x \<Rightarrow> x) of
                  Inl e \<Rightarrow> Inl e
                | Inr base \<Rightarrow>
                    (case finite_reading speed of
                       Inl e \<Rightarrow> Inl e
                     | Inr s \<Rightarrow>
                         (case finite_reading base of
                            Inl e \<Rightarrow> Inl e
                          | Inr b \<Rightarrow>
                              Inr \<lparr>lanes = l, speed_kph = s, base_travel_time = b,
                                   travel_time = b\<rparr>)))))"

fun cast_edges ::
  "(string \<Rightarrow> pyerr + pyfloat) \<Rightarrow> (node \<times> node \<times> nat \<times> raw_edge_data) list
    \<Rightarrow> pyerr + (node \<times> node \<times> nat \<times> edge_data) list" where
  "cast_edges flt [] = Inr []"
| "cast_edges flt ((u, v, k, data) # es) =
     (case cast_edge flt data of
        Inl e \<Rightarrow> Inl e
      | Inr d \<Rightarrow>
          (case cast_edges flt es of
             Inl e \<Rightarrow> Inl e
           | Inr es' \<Rightarrow> Inr ((u, v, k, d) # es')))"

text \<open>
  \<^verbatim>\<open>ap.AgentList(self, num_agents, VehicleAgent)\<close> creates the agents in order, each with a
  fresh identifier (here the identifiers handed in), and runs \<^verbatim>\<open>VehicleAgent.setup\<close>:
  \<^verbatim>\<open>
    self.pos = None
    self.destination = self.model.random.choice(self.model.graph_nodes)
    self.path = []
  \<close>
\<close>

fun create_agents ::
  "'r random_source \<Rightarrow> 'r \<Rightarrow> node list \<Rightarrow> nat list \<Rightarrow> pyerr + (agent list \<times> 'r)" where
  "create_agents R r ns [] = Inr ([], r)"
| "create_agents R r ns (i # ids) =
     (case choice R r ns of
        Inl e \<Rightarrow> Inl e
      | Inr (d, r') \<Rightarrow>
          (case create_agents R r' ns ids of
             Inl e \<Rightarrow> Inl e
           | Inr (as, r'') \<Rightarrow>
               Inr (\<lparr>aid = i, pos = None, destination = d, path = []\<rparr> # as, r'')))"

text \<open>
  One round of the placement loop of step9c:
  \<^verbatim>\<open>
    pos = initial_positions[i]
    agent.pos = pos
    self.grid[pos].add(agent)
    self.agent_positions[agent.id] = pos
    agent.calculate_new_path()
  \<close>
\<close>

definition place_agent ::
  "'d router \<Rightarrow> ('d \<Rightarrow> real) \<Rightarrow> 'r random_source \<Rightarrow> ('d, 'r) model \<Rightarrow> agent \<Rightarrow> node
    \<Rightarrow> pyerr + (('d, 'r) model \<times> agent)" where
  "place_agent sp w R m a p =
     (case grid m p of
        None \<Rightarrow> Inl KeyError
      | Some here \<Rightarrow>
          calculate_new_path sp w R
            (m\<lparr>grid := (grid m)(p \<mapsto> finsert (aid a) here),
               agent_positions := (agent_positions m)(aid a \<mapsto> p)\<rparr>)
            (a\<lparr>pos := Some p\<rparr>))"

fun place_agents ::
  "'d router \<Rightarrow> ('d \<Rightarrow> real) \<Rightarrow> 'r random_source \<Rightarrow> ('d, 'r) model \<Rightarrow> agent list \<Rightarrow> node list
    \<Rightarrow> pyerr + (('d, 'r) model \<times> agent list)" where
  "place_agents sp w R m [] ps = Inr (m, [])"
| "place_agents sp w R m (a # as) [] = Inl IndexError"
| "place_agents sp w R m (a # as) (p # ps) =
     (case place_agent sp w R m a p of
        Inl e \<Rightarrow> Inl e
      | Inr (m', a') \<Rightarrow>
          (case place_agents sp w R m' as ps of
             Inl e \<Rightarrow> Inl e
           | Inr (m'', as') \<Rightarrow> Inr (m'', a' # as')))"

text \<open>
  \<^verbatim>\<open>CityModel.setup\<close> of step9c, from the loaded graph on: the cast loop, the empty grid
  \<^verbatim>\<open>{node_id: set() for node_id in self.G.nodes()}\<close>, the agents, the initial positions
  \<^verbatim>\<open>self.random.choices(self.graph_nodes, k=num_agents)\<close> and the placement loop.
  The framework numbers the agents \<open>1, ..., num_agents\<close>.
\<close>

definition empty_grid :: "node list \<Rightarrow> (node \<rightharpoonup> nat fset)" where
  "empty_grid ns = (\<lambda>n. if n \<in> set ns then Some {||} else None)"

definition setup9c ::
  "(string \<Rightarrow> pyerr + pyfloat) \<Rightarrow> edge_data router \<Rightarrow> 'r random_source
    \<Rightarrow> raw_edge_data graph \<Rightarrow> nat \<Rightarrow> 'r
    \<Rightarrow> pyerr + ((edge_data, 'r) model \<times> agent list)" where
  "setup9c flt sp R loaded num_agents seed =
     (case cast_edges flt (edges loaded) of
        Inl e \<Rightarrow> Inl e
      | Inr es \<Rightarrow>
          (case create_agents R seed (nodes loaded) [1 ..< Suc num_agents] of
             Inl e \<Rightarrow> Inl e
           | Inr (agents, r1) \<Rightarrow>
               (case choices R r1 (nodes loaded) num_agents of
                  Inl e \<Rightarrow> Inl e
                | Inr (initial_positions, r2) \<Rightarrow>
                    place_agents sp travel_time R
                      \<lparr>G = \<lparr>nodes = nodes loaded, edges = es\<rparr>,
                       graph_nodes = nodes loaded,
                       grid = empty_grid (nodes loaded),
                       agent_positions = Map.empty,
                       rng = r2, t = 0\<rparr>
                      agents initial_positions)))"

section \<open>The simulation loop (step9c)\<close>

text \<open>
  The framework's \<^verbatim>\<open>Model.run\<close> sets \<open>t = 0\<close>, calls \<^verbatim>\<open>setup\<close> and \<^verbatim>\<open>update\<close>, and then, for
  the configured number of steps, increments \<open>t\<close> and calls \<^verbatim>\<open>step\<close> and \<^verbatim>\<open>update\<close>.
  \<^verbatim>\<open>CityModel.step\<close> is \<^verbatim>\<open>self.agents.step()\<close>.
\<close>

definition sim_step9c ::
  "edge_data router \<Rightarrow> 'r random_source \<Rightarrow> (edge_data, 'r) model \<times> agent list
    \<Rightarrow> pyerr + ((edge_data, 'r) model \<times> agent list)" where
  "sim_step9c sp R s =
     (case s of
        (m, agents) \<Rightarrow>
          (case step_all (step9c sp R) (m\<lparr>t := t m + 1\<rparr>) agents of
             Inl e \<Rightarrow> Inl e
           | Inr (m', agents') \<Rightarrow>
               (case update m' agents' of
                  Inl e \<Rightarrow> Inl e
                | Inr m'' \<Rightarrow> Inr (m'', agents'))))"

fun run_steps :: "('s \<Rightarrow> pyerr + 's) \<Rightarrow> 's \<Rightarrow> nat \<Rightarrow> pyerr + 's" where
  "run_steps f s 0 = Inr s"
| "run_steps f s (Suc n) =
     (case f s of
        Inl e \<Rightarrow> Inl e
      | Inr s' \<Rightarrow> run_steps f s' n)"

definition run9c ::
  "(string \<Rightarrow> pyerr + pyfloat) \<Rightarrow> edge_data router \<Rightarrow> 'r random_source
    \<Rightarrow> raw_edge_data graph \<Rightarrow> nat \<Rightarrow> 'r \<Rightarrow> nat
    \<Rightarrow> pyerr + ((edge_data, 'r) model \<times> agent list)" where
  "run9c flt sp R loaded num_agents seed steps =
     (case setup9c flt sp R loaded num_agents seed of
        Inl e \<Rightarrow> Inl e
      | Inr (m, agents) \<Rightarrow>
          (case update m agents of
             Inl e \<Rightarrow> Inl e
           | Inr m' \<Rightarrow> run_steps (sim_step9c sp R) (m', agents) steps))"

section \<open>The random walk (step6)\<close>

text \<open>
  \<^verbatim>\<open>G.neighbors(n)\<close> of a \<^verbatim>\<open>MultiDiGraph\<close> lists the successors of \<open>n\<close>, each once, and
  raises \<^verbatim>\<open>NetworkXError\<close> when \<open>n\<close> is not a node of the graph.
\<close>

definition neighbors :: "'d graph \<Rightarrow> node \<Rightarrow> pyerr + node list" where
  "neighbors g n =
     (if n \<notin> set (nodes g) then Inl NetworkXError
      else Inr (rev (remdups (rev (map (\<lambda>(u, v, k, d). v)
                 (filter (\<lambda>(u, v, k, d). u = n) (edges g)))))))"

text \<open>
  \<^verbatim>\<open>VehicleAgent.step\<close> of step6:
  \<^verbatim>\<open>
    neighbors = list(self.model.G.neighbors(self.pos))
    if neighbors:
        new_pos = self.model.random.choice(neighbors)
        self.model.move_agent(self, new_pos)
  \<close>
\<close>

definition step6 ::
  "'r random_source \<Rightarrow> ('d, 'r) model \<Rightarrow> vehicle \<Rightarrow> pyerr + (('d, 'r) model \<times> vehicle)" where
  "step6 R m a =
     (case (case pos a of None \<Rightarrow> Inl NetworkXError | Some p \<Rightarrow> neighbors (G m) p) of
        Inl e \<Rightarrow> Inl e
      | Inr ns \<Rightarrow>
          if ns \<noteq> [] then
            (case choice R (rng m) ns of
               Inl e \<Rightarrow> Inl e
             | Inr (new_pos, r') \<Rightarrow> move_agent (m\<lparr>rng := r'\<rparr>) a new_pos)
          else Inr (m, a))"

section \<open>The highway closure scenario (step8)\<close>

text \<open>
  The edges of step8 carry the \<^verbatim>\<open>highway\<close> tag and the \<^verbatim>\<open>length\<close> the router weighs.
  \<^verbatim>\<open>apply_highway_closure\<close> collects the \<open>(u, v, key)\<close> of every edge tagged
  \<^verbatim>\<open>'motorway'\<close>, or of every edge tagged \<^verbatim>\<open>'primary'\<close> when there is none, and removes them.
\<close>

record edge_data8 =
  highway :: "attr option"
  length_m :: real

definition tagged ::
  "string \<Rightarrow> (node \<times> node \<times> nat \<times> edge_data8) list \<Rightarrow> (node \<times> node \<times> nat) list" where
  "tagged tag es =
     map (\<lambda>(u, v, key, data). (u, v, key))
       (filter (\<lambda>(u, v, key, data). highway data = Some (Str tag)) es)"

definition apply_highway_closure :: "edge_data8 graph \<Rightarrow> edge_data8 graph" where
  "apply_highway_closure g =
     (let motorways = tagged ''motorway'' (edges g);
          edges_to_remove = (if motorways = [] then tagged ''primary'' (edges g) else motorways)
      in g\<lparr>edges := filter (\<lambda>(u, v, key, data). (u, v, key) \<notin> set edges_to_remove) (edges g)\<rparr>)"

text \<open>
  The placement loop of step8 differs from step9c's by a guard that draws from the global
  \<^verbatim>\<open>random\<close> module, a second generator with a state of its own (\<open>'q\<close>):
  \<^verbatim>\<open>
    pos = initial_positions[i]
    # Ensure agent spawns on a valid, non-isolated node
    if pos not in self.G:
        pos = random.choice(self.graph_nodes) # Pick a new valid node
    agent.pos = pos
    self.grid[pos].add(agent)
    self.agent_positions[agent.id] = pos
    agent.calculate_new_path()
  \<close>
\<close>

fun place_agents8 ::
  "edge_data8 router \<Rightarrow> 'r random_source \<Rightarrow> 'q random_source \<Rightarrow> (edge_data8, 'r) model \<Rightarrow> 'q
    \<Rightarrow> agent list \<Rightarrow> node list \<Rightarrow> pyerr + ((edge_data8, 'r) model \<times> agent list \<times> 'q)" where
  "place_agents8 sp R Q m q [] ps = Inr (m, [], q)"
| "place_agents8 sp R Q m q (a # as) [] = Inl IndexError"
| "place_agents8 sp R Q m q (a # as) (p # ps) =
     (case (if p \<notin> set (nodes (G m)) then choice Q q (graph_nodes m) else Inr (p, q)) of
        Inl e \<Rightarrow> Inl e
      | Inr (p', q') \<Rightarrow>
          (case place_agent sp length_m R m a p' of
             Inl e \<Rightarrow> Inl e
           | Inr (m', a') \<Rightarrow>
               (case place_agents8 sp R Q m' q' as ps of
                  Inl e \<Rightarrow> Inl e
                | Inr (m'', as', q'') \<Rightarrow> Inr (m'', a' # as', q''))))"

definition setup8 ::
  "edge_data8 router \<Rightarrow> 'r random_source \<Rightarrow> 'q random_source \<Rightarrow> edge_data8 graph \<Rightarrow> nat
    \<Rightarrow> 'r \<Rightarrow> 'q \<Rightarrow> pyerr + ((edge_data8, 'r) model \<times> agent list \<times> 'q)" where
  "setup8 sp R Q G_base num_agents seed q =
     (let g = apply_highway_closure G_base in
      case create_agents R seed (nodes g) [1 ..< Suc num_agents] of
        Inl e \<Rightarrow> Inl e
      | Inr (agents, r1) \<Rightarrow>
          (case choices R r1 (nodes g) num_agents of
             Inl e \<Rightarrow> Inl e
           | Inr (initial_positions, r2) \<Rightarrow>
               place_agents8 sp R Q
                 \<lparr>G = g, graph_nodes = nodes g, grid = empty_grid (nodes g),
                  agent_positions = Map.empty, rng = r2, t = 0\<rparr>
                 q agents initial_positions))"

text \<open>
  \<^verbatim>\<open>VehicleAgent.step\<close> of step8 is the shared part alone, \<^verbatim>\<open>CityModel.update\<close> reads
  \<^verbatim>\<open>self.agents[0]\<close> and prints. The run records the agents' positions after every step.
\<close>

definition update8 :: "('d, 'r) model \<Rightarrow> 'a list \<Rightarrow> pyerr + ('d, 'r) model" where
  "update8 m agents = (if agents = [] then Inl IndexError else Inr m)"

definition sim_step8 ::
  "edge_data8 router \<Rightarrow> 'r random_source \<Rightarrow> (edge_data8, 'r) model \<times> agent list
    \<Rightarrow> pyerr + ((edge_data8, 'r) model \<times> agent list)" where
  "sim_step8 sp R s =
     (case s of
        (m, agents) \<Rightarrow>
          (case step_all (follow_path sp length_m R) (m\<lparr>t := t m + 1\<rparr>) agents of
             Inl e \<Rightarrow> Inl e
           | Inr (m', agents') \<Rightarrow>
               (case update8 m' agents' of
                  Inl e \<Rightarrow> Inl e
                | Inr m'' \<Rightarrow> Inr (m'', agents'))))"

fun position_trace ::
  "('m \<times> agent list \<Rightarrow> pyerr + ('m \<times> agent list)) \<Rightarrow> 'm \<times> agent list \<Rightarrow> nat
    \<Rightarrow> pyerr + node option list list" where
  "position_trace f s 0 = Inr []"
| "position_trace f s (Suc n) =
     (case f s of
        Inl e \<Rightarrow> Inl e
      | Inr s' \<Rightarrow>
          (case position_trace f s' n of
             Inl e \<Rightarrow> Inl e
           | Inr tr \<Rightarrow> Inr (map pos (snd s') # tr)))"

definition run8 ::
  "edge_data8 router \<Rightarrow> 'r random_source \<Rightarrow> 'q random_source \<Rightarrow> edge_data8 graph \<Rightarrow> nat
    \<Rightarrow> 'r \<Rightarrow> 'q \<Rightarrow> nat \<Rightarrow> pyerr + node option list list" where
  "run8 sp R Q G_base num_agents seed q steps =
     (case setup8 sp R Q G_base num_agents seed q of
        Inl e \<Rightarrow> Inl e
      | Inr (m, agents, q') \<Rightarrow>
          (case update8 m agents of
             Inl e \<Rightarrow> Inl e
           | Inr m' \<Rightarrow>
               (case position_trace (sim_step8 sp R) (m', agents) steps of
                  Inl e \<Rightarrow> Inl e
                | Inr tr \<Rightarrow> Inr (map pos agents # tr))))"

section \<open>A parser for the examples\<close>

text \<open>
  The examples need a concrete \<open>flt\<close>. \<open>decimal_float\<close> reads plain signed decimal numerals
  (\<^verbatim>\<open>'2'\<close>, \<^verbatim>\<open>'10.0'\<close>, \<^verbatim>\<open>'-1.5'\<close>) and the signed words \<^verbatim>\<open>inf\<close>, \<^verbatim>\<open>infinity\<close> and
  \<^verbatim>\<open>nan\<close> in lower case, on which it agrees with \<^verbatim>\<open>float\<close>, and rejects any other
  string. It is not the whole of \<^verbatim>\<open>float\<close>, which also reads exponents, the words in
  upper case, blanks around the numeral and underscores between digits; the examples use
  none of these.
\<close>

definition digit_of :: "char \<Rightarrow> nat option" where
  "digit_of c = (let n = (of_char c :: nat) in if 48 \<le> n \<and> n \<le> 57 then Some (n - 48) else None)"

fun digits_value :: "string \<Rightarrow> nat \<Rightarrow> nat option" where
  "digits_value [] acc = Some acc"
| "digits_value (c # cs) acc =
     (case digit_of c of None \<Rightarrow> None | Some d \<Rightarrow> digits_value cs (10 * acc + d))"

definition unsigned_decimal :: "string \<Rightarrow> real option" where
  "unsigned_decimal s =
     (let ip = takeWhile (\<lambda>c. c \<noteq> CHR ''.'') s;
          fp = drop 1 (dropWhile (\<lambda>c. c \<noteq> CHR ''.'') s)
      in if ip = [] \<and> fp = [] then None
         else (case digits_value ip 0 of
                 None \<Rightarrow> None
               | Some i \<Rightarrow>
                   (case digits_value fp 0 of
                      None \<Rightarrow> None
                    | Some f \<Rightarrow> Some (real i + real f / 10 ^ length fp))))"

definition decimal_float :: "string \<Rightarrow> pyerr + pyfloat" where
  "decimal_float s =
     (case (case s of
              [] \<Rightarrow> (False, s)
            | c # cs \<Rightarrow>
                if c = CHR ''-'' then (True, cs) else if c = CHR ''+'' then (False, cs)
                else (False, s)) of
        (negative, body) \<Rightarrow>
          if body = ''inf'' \<or> body = ''infinity'' then Inr (if negative then NegInf else PosInf)
          else if body = ''nan'' then Inr NaN
          else (case unsigned_decimal body of
                  None \<Rightarrow> Inl ValueError
                | Some x \<Rightarrow> Inr (Finite (if negative then - x else x))))"

section \<open>Invariants\<close>

text \<open>
  The lower bound of the specification: the dynamic travel time of an edge is never below
  its base (free-flow) travel time. \<open>bounded_below\<close> asks it of the edges whose static
  attributes are in the ranges of the data model, a positive lane count and a base travel
  time that is not negative. \<open>static_attributes\<close> are the attributes that the simulation is
  to leave alone.
\<close>

definition congestion_inv :: "(node \<times> node \<times> nat \<times> edge_data) list \<Rightarrow> bool" where
  "congestion_inv es \<longleftrightarrow> (\<forall>(u, v, k, d) \<in> set es. base_travel_time d \<le> travel_time d)"

definition bounded_below :: "(node \<times> node \<times> nat \<times> edge_data) list \<Rightarrow> bool" where
  "bounded_below es \<longleftrightarrow>
     (\<forall>(u, v, k, d) \<in> set es.
        0 < lanes d \<longrightarrow> 0 \<le> base_travel_time d \<longrightarrow> base_travel_time d \<le> travel_time d)"

definition static_attributes ::
  "(node \<times> node \<times> nat \<times> edge_data) list \<Rightarrow> (node \<times> node \<times> nat \<times> int \<times> real \<times> real) list" where
  "static_attributes es =
     map (\<lambda>(u, v, k, d). (u, v, k, lanes d, speed_kph d, base_travel_time d)) es"

text \<open>
  The occupancy index of the specification: over the identifiers \<open>I\<close> of the live agents,
  every identifier stands in the set of exactly one node and the sets hold nobody else.
  \<open>occupancy_ok\<close> words it for an agent list and adds the sum of the occupancies.
\<close>

definition occupancy_inv :: "(node \<rightharpoonup> nat fset) \<Rightarrow> nat set \<Rightarrow> bool" where
  "occupancy_inv gr I \<longleftrightarrow>
     finite (dom gr)
     \<and> (\<forall>i \<in> I. \<exists>!n. \<exists>S. gr n = Some S \<and> i |\<in>| S)
     \<and> (\<forall>n S i. gr n = Some S \<longrightarrow> i |\<in>| S \<longrightarrow> i \<in> I)"

definition occupancy_ok :: "(node \<rightharpoonup> nat fset) \<Rightarrow> 'a vehicle_scheme list \<Rightarrow> bool" where
  "occupancy_ok gr agents \<longleftrightarrow>
     (\<forall>a \<in> set agents. \<exists>!n. \<exists>S. gr n = Some S \<and> aid a |\<in>| S)
     \<and> (\<forall>n S i. gr n = Some S \<longrightarrow> i |\<in>| S \<longrightarrow> i \<in> aid ` set agents)
     \<and> (\<Sum>n \<in> dom gr. occupancy gr n) = length agents"

text \<open>
  What the router is asked about a graph: its edges join nodes of the graph, the weights are
  not negative. A walk from \<open>source\<close> to \<open>target\<close> is a node list whose consecutive nodes
  are joined by an edge; its weight adds the weights of the lightest parallel edges.
\<close>

definition wf_graph :: "'d graph \<Rightarrow> bool" where
  "wf_graph g \<longleftrightarrow> (\<forall>(u, v, k, d) \<in> set (edges g). u \<in> set (nodes g) \<and> v \<in> set (nodes g))"

definition nonneg_weights :: "('d \<Rightarrow> real) \<Rightarrow> 'd graph \<Rightarrow> bool" where
  "nonneg_weights w g \<longleftrightarrow> (\<forall>(u, v, k, d) \<in> set (edges g). 0 \<le> w d)"

definition walk :: "('d \<Rightarrow> real) \<Rightarrow> 'd graph \<Rightarrow> node \<Rightarrow> node \<Rightarrow> node list \<Rightarrow> real \<Rightarrow> bool" where
  "walk w g s tgt q c \<longleftrightarrow> q \<noteq> [] \<and> hd q = s \<and> last q = tgt \<and> path_weight w g q = Some c"

definition adjacent_steps :: "'d graph \<Rightarrow> node list \<Rightarrow> bool" where
  "adjacent_steps g p \<longleftrightarrow>
     (\<forall>i. Suc i < length p \<longrightarrow> (\<exists>k d. (p ! i, p ! Suc i, k, d) \<in> set (edges g)))"

text \<open>
  The invariant of the router's loop: the source is labelled; every label is the weight
  bound of a simple path from the source through finished nodes; the finished nodes are
  labelled, their outgoing edges are relaxed, and their labels are the smallest.
\<close>

definition source_labelled :: "node \<Rightarrow> labels \<Rightarrow> bool" where
  "source_labelled s L \<longleftrightarrow> (\<exists>d p. L s = Some (d, p) \<and> d \<le> 0)"

definition labels_are_paths ::
  "('d \<Rightarrow> real) \<Rightarrow> 'd graph \<Rightarrow> node \<Rightarrow> node list \<Rightarrow> labels \<Rightarrow> bool" where
  "labels_are_paths w g s F L \<longleftrightarrow>
     (\<forall>v d p. L v = Some (d, p) \<longrightarrow>
        v \<in> set (nodes g) \<and> p \<noteq> [] \<and> hd p = s \<and> last p = v \<and> distinct p
        \<and> set (butlast p) \<subseteq> set F \<and> (\<exists>c. path_weight w g p = Some c \<and> c \<le> d))"

definition finished_labelled :: "node list \<Rightarrow> labels \<Rightarrow> bool" where
  "finished_labelled F L \<longleftrightarrow> (\<forall>u \<in> set F. L u \<noteq> None)"

definition finished_relaxed ::
  "('d \<Rightarrow> real) \<Rightarrow> 'd graph \<Rightarrow> node list \<Rightarrow> labels \<Rightarrow> bool" where
  "finished_relaxed w g F L \<longleftrightarrow>
     (\<forall>u \<in> set F. \<forall>(v, c) \<in> set (out_edges w g u).
        \<exists>dv pv. L v = Some (dv, pv) \<and> dv \<le> label_dist L u + c)"

definition finished_first :: "node list \<Rightarrow> labels \<Rightarrow> bool" where
  "finished_first F L \<longleftrightarrow>
     (\<forall>x \<in> set F. \<forall>y. y \<notin> set F \<longrightarrow> L y \<noteq> None \<longrightarrow> label_dist L x \<le> label_dist L y)"

definition dijkstra_inv ::
  "('d \<Rightarrow> real) \<Rightarrow> 'd graph \<Rightarrow> node \<Rightarrow> node list \<Rightarrow> labels \<Rightarrow> bool" where
  "dijkstra_inv w g s F L \<longleftrightarrow>
     source_labelled s L \<and> labels_are_paths w g s F L \<and> finished_labelled F L
     \<and> finished_relaxed w g F L \<and> finished_first F L"

text \<open>One destination redraw moves the generator from \<open>r\<close> to \<open>redraw R n r\<close>, for \<open>n\<close> nodes to choose from.\<close>

definition redraw :: "'r random_source \<Rightarrow> nat \<Rightarrow> 'r \<Rightarrow> 'r" where
  "redraw R n r = snd (randbelow R r n)"

section \<open>Example networks\<close>

text \<open>A one-lane edge from node 0 to node 1, and a model with eleven agents on node 0.\<close>

definition ex_edge :: edge_data where
  "ex_edge = \<lparr>lanes = 1, speed_kph = 30, base_travel_time = 10, travel_time = 10\<rparr>"

definition ex_crowded :: "(edge_data, nat) model" where
  "ex_crowded =
     \<lparr>G = \<lparr>nodes = [0, 1], edges = [(0, 1, 0, ex_edge)]\<rparr>,
      graph_nodes = [0, 1],
      grid = [0 \<mapsto> {|1, 2, 3, 4, 5, 6, 7, 8, 9, 10, 11|}, 1 \<mapsto> {||}],
      agent_positions = Map.empty, rng = 0, t = 1\<rparr>"

text \<open>
  A generator whose state counts the draws made so far and whose \<open>k\<close>-th draw is \<open>k\<close>, and a
  loaded graph of two nodes: the edge \<open>0 \<rightarrow> 1\<close> has no attribute, the edge \<open>1 \<rightarrow> 0\<close> has them all.
\<close>

definition counting :: "nat random_source" where
  "counting = \<lparr>randbelow = (\<lambda>r n. (r, Suc r)), randindex = (\<lambda>r n. (r, Suc r))\<rparr>"

definition ex_loaded :: "raw_edge_data graph" where
  "ex_loaded =
     \<lparr>nodes = [0, 1],
      edges = [(0, 1, 0, \<lparr>lanes_attr = None, speed_kph_attr = None, base_travel_time_attr = None\<rparr>),
               (1, 0, 0, \<lparr>lanes_attr = Some (Lst [Str ''2'', Str ''3'']),
                          speed_kph_attr = Some (Num (Finite 40)),
                          base_travel_time_attr = Some (Str ''7.5'')\<rparr>)]\<rparr>"

text \<open>Three nodes, of which only 0 and 1 are joined, and a vehicle on node 0.\<close>

definition ex_far :: "(edge_data, nat) model" where
  "ex_far =
     \<lparr>G = \<lparr>nodes = [0, 1, 2], edges = [(0, 1, 0, ex_edge)]\<rparr>,
      graph_nodes = [0, 1, 2],
      grid = [0 \<mapsto> {|1|}, 1 \<mapsto> {||}, 2 \<mapsto> {||}],
      agent_positions = [1 \<mapsto> 0], rng = 0, t = 1\<rparr>"

definition ex_vehicle :: vehicle where
  "ex_vehicle = \<lparr>aid = 1, pos = Some 0\<rparr>"

text \<open>A detour \<open>0 \<rightarrow> 1 \<rightarrow> 2\<close> that is faster than the direct edge, and a routing agent on node 0.\<close>

definition ex_routes :: "(edge_data, nat) model" where
  "ex_routes =
     \<lparr>G = \<lparr>nodes = [0, 1, 2],
            edges = [(0, 2, 0, ex_edge\<lparr>base_travel_time := 30, travel_time := 30\<rparr>),
                     (0, 1, 0, ex_edge), (1, 2, 0, ex_edge)]\<rparr>,
      graph_nodes = [0, 1, 2],
      grid = [0 \<mapsto> {|1|}, 1 \<mapsto> {||}, 2 \<mapsto> {||}],
      agent_positions = [1 \<mapsto> 0], rng = 0, t = 1\<rparr>"

definition ex_agent :: agent where
  "ex_agent = \<lparr>aid = 1, pos = Some 0, destination = 2, path = []\<rparr>"

text \<open>A loaded graph whose only edge has a negative lane count.\<close>

definition ex_negative_lanes :: "raw_edge_data graph" where
  "ex_negative_lanes =
     \<lparr>nodes = [0, 1],
      edges = [(0, 1, 0, \<lparr>lanes_attr = Some (Str ''-1''), speed_kph_attr = None,
                          base_travel_time_attr = None\<rparr>)]\<rparr>"

text \<open>A loaded graph whose only edge has a lane value that is no number.\<close>

definition ex_bad_lanes :: "raw_edge_data graph" where
  "ex_bad_lanes =
     \<lparr>nodes = [0, 1],
      edges = [(0, 1, 0, \<lparr>lanes_attr = Some (Str ''2;3''), speed_kph_attr = None,
                          base_travel_time_attr = None\<rparr>)]\<rparr>"

text \<open>An agent on node 2, which no edge leaves, at a step where the route is recomputed.\<close>

definition ex_stuck :: "(edge_data, nat) model" where
  "ex_stuck =
     \<lparr>G = \<lparr>nodes = [0, 1, 2], edges = [(0, 1, 0, ex_edge)]\<rparr>,
      graph_nodes = [0, 1, 2],
      grid = [0 \<mapsto> {||}, 1 \<mapsto> {||}, 2 \<mapsto> {|1|}],
      agent_positions = [1 \<mapsto> 2], rng = 0, t = 5\<rparr>"

definition ex_stuck_agent :: agent where
  "ex_stuck_agent = \<lparr>aid = 1, pos = Some 2, destination = 0, path = []\<rparr>"

text \<open>
  A base graph for step8 whose node 1 hangs on two motorway edges, and a second generator
  for the global \<^verbatim>\<open>random\<close> module that answers 2 whatever it is asked.
\<close>

definition ex_base :: "edge_data8 graph" where
  "ex_base =
     \<lparr>nodes = [0, 1, 2],
      edges = [(0, 2, 0, \<lparr>highway = Some (Str ''residential''), length_m = 5\<rparr>),
               (2, 0, 0, \<lparr>highway = Some (Str ''residential''), length_m = 5\<rparr>),
               (0, 1, 0, \<lparr>highway = Some (Str ''motorway''), length_m = 9\<rparr>),
               (1, 0, 0, \<lparr>highway = Some (Str ''motorway''), length_m = 9\<rparr>)]\<rparr>"

definition other_generator :: "bool random_source" where
  "other_generator = \<lparr>randbelow = (\<lambda>r n. (2, \<not> r)), randindex = (\<lambda>r n. (2, \<not> r))\<rparr>"

section \<open>Properties of the congestion recompute\<close>

lemma dict_get_node_congestion:
  "dict_get (node_congestion gr) n 0 = occupancy gr n"
  by (simp add: dict_get_def node_congestion_def occupancy_def split: option.splits)

lemma apply_congestion_spec:
  "\<forall>(u, v, k, d) \<in> set es. 0 < lanes d \<Longrightarrow>
   apply_congestion (node_congestion gr) (reset_travel_times es) = Inr (spec_recompute gr es)"
proof (induction es)
  case Nil
  show ?case by (simp add: reset_travel_times_def spec_recompute_def)
next
  case (Cons e es)
  obtain u v k d where e: "e = (u, v, k, d)" by (cases e) auto
  from Cons.prems e have pos_lanes: "0 < lanes d" and rest: "\<forall>(u, v, k, d) \<in> set es. 0 < lanes d"
    by auto
  have ih: "apply_congestion (node_congestion gr) (reset_travel_times es) = Inr (spec_recompute gr es)"
    using Cons.IH [OF rest] .
  have cap: "lanes d * CAPACITY_PER_LANE \<noteq> 0"
    using pos_lanes by (simp add: CAPACITY_PER_LANE_def)
  have unfold_reset: "reset_travel_times (e # es) =
      (u, v, k, d\<lparr>travel_time := base_travel_time d\<rparr>) # reset_travel_times es"
    by (simp add: reset_travel_times_def e)
  have unfold_spec: "spec_recompute gr (e # es) =
      (u, v, k, d\<lparr>travel_time := spec_current_time gr u v d\<rparr>) # spec_recompute gr es"
    by (simp add: spec_recompute_def e)
  show ?case
    unfolding unfold_reset unfold_spec
    using cap ih
    by (simp add: dict_get_node_congestion spec_current_time_def Let_def)
qed

lemma apply_congestion_returns:
  "apply_congestion (node_congestion gr) (reset_travel_times es) = Inr es' \<Longrightarrow>
     es' = spec_recompute gr es"
proof (induction es arbitrary: es')
  case Nil
  then show ?case by (simp add: reset_travel_times_def spec_recompute_def)
next
  case (Cons e es)
  obtain u v k d where e: "e = (u, v, k, d)" by (cases e) auto
  have unfold_reset: "reset_travel_times (e # es) =
      (u, v, k, d\<lparr>travel_time := base_travel_time d\<rparr>) # reset_travel_times es"
    by (simp add: reset_travel_times_def e)
  have unfold_spec: "spec_recompute gr (e # es) =
      (u, v, k, d\<lparr>travel_time := spec_current_time gr u v d\<rparr>) # spec_recompute gr es"
    by (simp add: spec_recompute_def e)
  from Cons.prems obtain es1 where
    rest: "apply_congestion (node_congestion gr) (reset_travel_times es) = Inr es1"
    unfolding unfold_reset
    by (auto simp: Let_def split: if_splits sum.splits)
  from Cons.IH [OF rest] have es1: "es1 = spec_recompute gr es" .
  from Cons.prems show ?case
    unfolding unfold_reset unfold_spec
    using rest es1
    by (auto simp: dict_get_node_congestion spec_current_time_def Let_def split: if_splits)
qed

text \<open>
  C1. After the moves of a tick, the congestion recompute gives every edge \<open>(u, v)\<close> the
  travel time \<open>free_flow_time * (load / capacity)\<close> when \<open>load > capacity\<close> and exactly
  \<open>free_flow_time\<close> otherwise, with \<open>load = occupancy u + occupancy v\<close> and
  \<open>capacity = lanes * CAPACITY_PER_LANE\<close>: whenever \<^verbatim>\<open>update\<close> returns, the edges are the
  ones of the specification's rule, and it does return when the model has an agent and the
  lanes are positive. The new value is a function of the base travel time, the lanes and
  the grid alone: changing the previous travel times changes nothing.
\<close>

theorem update_recomputes_travel_time:
  "(\<forall>m'. update m agents = Inr m' \<longrightarrow>
       m' = m\<lparr>G := (G m)\<lparr>edges := spec_recompute (grid m) (edges (G m))\<rparr>\<rparr>)
   \<and> (agents \<noteq> [] \<longrightarrow> (\<forall>(u, v, k, d) \<in> set (edges (G m)). 0 < lanes d) \<longrightarrow>
       update m agents = Inr (m\<lparr>G := (G m)\<lparr>edges := spec_recompute (grid m) (edges (G m))\<rparr>\<rparr>))
   \<and> spec_recompute (grid m)
         (map (\<lambda>(u, v, k, d). (u, v, k, d\<lparr>travel_time := prev u v k d\<rparr>)) (edges (G m)))
       = spec_recompute (grid m) (edges (G m))"
proof (intro conjI allI impI)
  fix m' assume "update m agents = Inr m'"
  then obtain es where
    1: "apply_congestion (node_congestion (grid m)) (reset_travel_times (edges (G m))) = Inr es"
    and 2: "m' = m\<lparr>G := (G m)\<lparr>edges := es\<rparr>\<rparr>"
    by (auto simp: update_def split: sum.splits if_splits)
  from apply_congestion_returns [OF 1] 2
  show "m' = m\<lparr>G := (G m)\<lparr>edges := spec_recompute (grid m) (edges (G m))\<rparr>\<rparr>" by simp
next
  assume "agents \<noteq> []" and "\<forall>(u, v, k, d) \<in> set (edges (G m)). 0 < lanes d"
  then show "update m agents = Inr (m\<lparr>G := (G m)\<lparr>edges := spec_recompute (grid m) (edges (G m))\<rparr>\<rparr>)"
    by (simp add: update_def apply_congestion_spec)
next
  show "spec_recompute (grid m)
          (map (\<lambda>(u, v, k, d). (u, v, k, d\<lparr>travel_time := prev u v k d\<rparr>)) (edges (G m)))
        = spec_recompute (grid m) (edges (G m))"
    by (auto simp: spec_recompute_def spec_current_time_def Let_def)
qed

theorem update_recomputes_travel_time_witness:
  "update ex_crowded [()] =
     Inr (ex_crowded\<lparr>G := \<lparr>nodes = [0, 1], edges = [(0, 1, 0, ex_edge\<lparr>travel_time := 11\<rparr>)]\<rparr>\<rparr>)"
proof -
  have "update ex_crowded [()] =
     Inr (ex_crowded\<lparr>G := (G ex_crowded)\<lparr>edges := spec_recompute (grid ex_crowded) (edges (G ex_crowded))\<rparr>\<rparr>)"
    by (rule update_recomputes_travel_time [of ex_crowded "[()]", THEN conjunct2, THEN conjunct1,
          rule_format])
      (simp_all add: ex_crowded_def ex_edge_def)
  then show ?thesis
    by (simp add: ex_crowded_def ex_edge_def spec_recompute_def spec_current_time_def occupancy_def
        CAPACITY_PER_LANE_def fcard_finsert_if)
qed

section \<open>What a step leaves alone\<close>

lemma move_agent_frame:
  "move_agent m a np = Inr (m', a') \<Longrightarrow>
     G m' = G m \<and> graph_nodes m' = graph_nodes m \<and> rng m' = rng m \<and> t m' = t m \<and> aid a' = aid a"
  by (auto simp: move_agent_def Let_def split: option.splits if_splits)

lemma calculate_new_path_frame:
  "calculate_new_path sp w R m a = Inr (m', a') \<Longrightarrow>
     G m' = G m \<and> graph_nodes m' = graph_nodes m \<and> grid m' = grid m
     \<and> agent_positions m' = agent_positions m \<and> t m' = t m \<and> aid a' = aid a \<and> pos a' = pos a"
  by (auto simp: calculate_new_path_def split: option.splits sum.splits list.splits if_splits prod.splits)

lemma pop_and_move_frame:
  "pop_and_move m a = Inr (m', a') \<Longrightarrow>
     G m' = G m \<and> graph_nodes m' = graph_nodes m \<and> rng m' = rng m \<and> t m' = t m \<and> aid a' = aid a"
  by (auto simp: pop_and_move_def split: list.splits dest!: move_agent_frame)

lemma follow_path_frame:
  "follow_path sp w R m a = Inr (m', a') \<Longrightarrow>
     G m' = G m \<and> graph_nodes m' = graph_nodes m \<and> t m' = t m \<and> aid a' = aid a"
  by (auto simp: follow_path_def split: if_splits sum.splits prod.splits
      dest!: pop_and_move_frame calculate_new_path_frame)

lemma step9c_frame:
  "step9c sp R m a = Inr (m', a') \<Longrightarrow>
     G m' = G m \<and> graph_nodes m' = graph_nodes m \<and> t m' = t m \<and> aid a' = aid a"
  by (auto simp: step9c_def split: if_splits sum.splits prod.splits
      dest!: follow_path_frame calculate_new_path_frame)

lemma step_all_frame:
  assumes "\<And>m a m' a'. f m a = Inr (m', a') \<Longrightarrow> P m' = P m \<and> aid a' = aid a"
  shows "step_all f m as = Inr (m', as') \<Longrightarrow> P m' = P m \<and> map aid as' = map aid as"
proof (induction as arbitrary: m m' as')
  case Nil
  then show ?case by simp
next
  case (Cons a as)
  from Cons.prems obtain m1 a1 as1 where
    1: "f m a = Inr (m1, a1)" and 2: "step_all f m1 as = Inr (m', as1)" and 3: "as' = a1 # as1"
    by (auto split: sum.splits prod.splits)
  from assms [OF 1] Cons.IH [OF 2] 3 show ?case by simp
qed


lemma cast_edge_travel_time:
  "cast_edge flt data = Inr d \<Longrightarrow> travel_time d = base_travel_time d"
  by (auto simp: cast_edge_def split: sum.splits)

lemma cast_edges_travel_time:
  "cast_edges flt es = Inr es' \<Longrightarrow> \<forall>(u, v, k, d) \<in> set es'. travel_time d = base_travel_time d"
proof (induction es arbitrary: es')
  case Nil
  then show ?case by simp
next
  case (Cons e es)
  obtain u v k data where e: "e = (u, v, k, data)" by (cases e) auto
  from Cons.prems e obtain d es1 where
    1: "cast_edge flt data = Inr d" and 2: "cast_edges flt es = Inr es1" and 3: "es' = (u, v, k, d) # es1"
    by (auto split: sum.splits)
  from Cons.IH [OF 2] cast_edge_travel_time [OF 1] 3 show ?case by simp
qed

lemma place_agent_frame:
  "place_agent sp w R m a p = Inr (m', a') \<Longrightarrow>
     G m' = G m \<and> graph_nodes m' = graph_nodes m \<and> t m' = t m \<and> aid a' = aid a"
  by (auto simp: place_agent_def split: option.splits dest!: calculate_new_path_frame)

lemma place_agents_frame:
  "place_agents sp w R m as ps = Inr (m', as') \<Longrightarrow>
     G m' = G m \<and> graph_nodes m' = graph_nodes m \<and> t m' = t m \<and> map aid as' = map aid as"
proof (induction sp w R m as ps arbitrary: m' as' rule: place_agents.induct)
  case (1 sp w R m ps)
  then show ?case by simp
next
  case (2 sp w R m a as)
  then show ?case by simp
next
  case (3 sp w R m a as p ps)
  from "3.prems" obtain m1 a1 as1 where
    a: "place_agent sp w R m a p = Inr (m1, a1)"
    and b: "place_agents sp w R m1 as ps = Inr (m', as1)" and c: "as' = a1 # as1"
    by (auto split: sum.splits prod.splits)
  have "G m' = G m1 \<and> graph_nodes m' = graph_nodes m1 \<and> t m' = t m1 \<and> map aid as1 = map aid as"
    by (rule "3.IH" [OF a refl b])
  with place_agent_frame [OF a] c show ?case by simp
qed

lemma setup9c_edges:
  assumes "setup9c flt sp R loaded n seed = Inr (m, as)"
  shows "cast_edges flt (edges loaded) = Inr (edges (G m)) \<and> nodes (G m) = nodes loaded
    \<and> graph_nodes m = nodes loaded"
proof -
  obtain es where 1: "cast_edges flt (edges loaded) = Inr es"
    using assms unfolding setup9c_def by (cases "cast_edges flt (edges loaded)") simp_all
  obtain agents r1 where c: "create_agents R seed (nodes loaded) [1 ..< Suc n] = Inr (agents, r1)"
    using assms 1 unfolding setup9c_def
    by (cases "create_agents R seed (nodes loaded) [1 ..< Suc n]") (auto simp del: upt_Suc)
  obtain ps r2 where d: "choices R r1 (nodes loaded) n = Inr (ps, r2)"
    using assms 1 c unfolding setup9c_def
    by (cases "choices R r1 (nodes loaded) n") (auto simp del: upt_Suc)
  have 2: "place_agents sp travel_time R
              \<lparr>G = \<lparr>nodes = nodes loaded, edges = es\<rparr>, graph_nodes = nodes loaded,
               grid = empty_grid (nodes loaded), agent_positions = Map.empty, rng = r2, t = 0\<rparr>
              agents ps = Inr (m, as)"
    using assms 1 c d unfolding setup9c_def by (simp del: upt_Suc)
  from place_agents_frame [OF 2] 1 show ?thesis by simp
qed

lemma spec_current_time_lower_bound:
  assumes "0 < lanes d" and "0 \<le> base_travel_time d"
  shows "base_travel_time d \<le> spec_current_time gr u v d"
proof -
  define load where "load = int (occupancy gr u + occupancy gr v)"
  define cap where "cap = lanes d * CAPACITY_PER_LANE"
  have cap: "0 < cap" using assms(1) by (simp add: cap_def CAPACITY_PER_LANE_def)
  have eq: "spec_current_time gr u v d =
      (if load > cap then base_travel_time d * (real_of_int load / real_of_int cap)
       else base_travel_time d)"
    by (simp add: spec_current_time_def Let_def load_def cap_def)
  show ?thesis
  proof (cases "load > cap")
    case True
    have "real_of_int cap \<le> real_of_int load" using True by simp
    moreover have "0 < real_of_int cap" using cap by simp
    ultimately have "1 \<le> real_of_int load / real_of_int cap"
      by (simp add: le_divide_eq)
    then have "base_travel_time d * 1 \<le> base_travel_time d * (real_of_int load / real_of_int cap)"
      using assms(2) by (rule mult_left_mono)
    with True eq show ?thesis by simp
  next
    case False
    with eq show ?thesis by simp
  qed
qed

lemma spec_recompute_bounded_below: "bounded_below (spec_recompute gr es)"
proof -
  have "base_travel_time d \<le> spec_current_time gr u v d"
    if "0 < lanes d" and "0 \<le> base_travel_time d" for u v d
    using that by (rule spec_current_time_lower_bound)
  then show ?thesis
    unfolding bounded_below_def spec_recompute_def by (auto simp del: split_paired_All)
qed

lemma spec_recompute_static: "static_attributes (spec_recompute gr es) = static_attributes es"
  by (induction es) (auto simp: static_attributes_def spec_recompute_def)

lemma update_edges:
  assumes "update m as = Inr m'"
  shows "edges (G m') = spec_recompute (grid m) (edges (G m))"
proof -
  from assms obtain es where
    1: "apply_congestion (node_congestion (grid m)) (reset_travel_times (edges (G m))) = Inr es"
    and 2: "m' = m\<lparr>G := (G m)\<lparr>edges := es\<rparr>\<rparr>"
    by (auto simp: update_def split: sum.splits if_splits)
  from apply_congestion_returns [OF 1] 2 show ?thesis by simp
qed

lemma sim_step9c_edges:
  assumes "sim_step9c sp R (m, as) = Inr (m', as')"
  shows "\<exists>gr. edges (G m') = spec_recompute gr (edges (G m))"
proof -
  from assms obtain m1 where
    1: "step_all (step9c sp R) (m\<lparr>t := t m + 1\<rparr>) as = Inr (m1, as')" and 2: "update m1 as' = Inr m'"
    by (auto simp: sim_step9c_def split: sum.splits prod.splits)
  have "G m1 = G (m\<lparr>t := t m + 1\<rparr>) \<and> map aid as' = map aid as"
    using 1 by (rule step_all_frame [rotated]) (auto dest: step9c_frame)
  then have "edges (G m1) = edges (G m)" by simp
  with update_edges [OF 2] show ?thesis by auto
qed

lemma run_steps_inv:
  assumes "\<And>s s'. P s \<Longrightarrow> f s = Inr s' \<Longrightarrow> P s'"
  shows "P s \<Longrightarrow> run_steps f s n = Inr s' \<Longrightarrow> P s'"
proof (induction n arbitrary: s)
  case 0
  then show ?case by simp
next
  case (Suc n)
  from Suc.prems(2) obtain s1 where 1: "f s = Inr s1" and 2: "run_steps f s1 n = Inr s'"
    by (auto split: sum.splits)
  from Suc.IH [OF assms [OF Suc.prems(1) 1] 2] show ?case .
qed

lemma decimal_float_examples:
  "decimal_float ''1'' = Inr (Finite 1)" "decimal_float ''30'' = Inr (Finite 30)"
  "decimal_float ''10.0'' = Inr (Finite 10)" "decimal_float ''7.5'' = Inr (Finite 7.5)"
  "decimal_float ''2'' = Inr (Finite 2)" "decimal_float ''0'' = Inr (Finite 0)"
  "decimal_float ''-1'' = Inr (Finite (- 1))"
  "decimal_float ''inf'' = Inr PosInf" "decimal_float ''-inf'' = Inr NegInf"
  "decimal_float ''nan'' = Inr NaN"
  "decimal_float ''2;3'' = Inl ValueError"
  by (simp_all add: decimal_float_def unsigned_decimal_def digit_of_def Let_def)

lemmas run9c_eval =
  cast_edge_def cast_lanes_def py_float_def py_int_def truncate_toward_zero_def
  finite_reading_def decimal_float_examples
  setup9c_def counting_def choice_def place_agent_def calculate_new_path_def shortest_path_def
  frontier_def label_dist_def out_edges_def relax_edge_def empty_grid_def
  run9c_def sim_step9c_def step9c_def follow_path_def pop_and_move_def move_agent_def update_def
  reset_travel_times_def node_congestion_def dict_get_def CAPACITY_PER_LANE_def
  RECALCULATE_PATH_STEPS_def Let_def fcard_finsert_if

text \<open>
  C2 as stated fails: the loader checks no range, so a stored lane count of \<^verbatim>\<open>'-1'\<close> loads.
  The capacity of the edge is then \<open>-10\<close>, any load exceeds it, and the recompute that ends
  the initialisation sets the travel time to \<open>10 * (1 / -10) = -1\<close>, below the base travel
  time 10.
\<close>

theorem negative_lanes_discount_travel_time:
  "\<not> isl (run9c decimal_float shortest_path counting ex_negative_lanes 1 0 0)
   \<and> edges (G (fst (projr (run9c decimal_float shortest_path counting ex_negative_lanes 1 0 0))))
       = [(0, 1, 0, \<lparr>lanes = - 1, speed_kph = 30, base_travel_time = 10, travel_time = - 1\<rparr>)]
   \<and> \<not> congestion_inv
         (edges (G (fst (projr (run9c decimal_float shortest_path counting ex_negative_lanes 1 0 0)))))"
  by code_simp

text \<open>
  C2, amended. After \<^verbatim>\<open>setup\<close> the travel time of every edge is its base travel time. An
  agent step leaves the graph alone. Every congestion recompute, whatever the graph was
  before, leaves the lanes, speed and base travel time of every edge as they were and
  leaves every edge with a positive lane count and a base travel time that is not negative
  with a travel time of at least the base travel time. So at the end of every run these
  edges are bounded below, and the static attributes are the loaded ones.
\<close>

theorem travel_time_lower_bound:
  "(\<forall>m0 ags0. setup9c flt sp R loaded n seed = Inr (m0, ags0) \<longrightarrow>
       (\<forall>(u, v, k, d) \<in> set (edges (G m0)). travel_time d = base_travel_time d))
   \<and> (\<forall>m a m' a'. step9c sp R m a = Inr (m', a') \<longrightarrow> G m' = G m)
   \<and> (\<forall>m ags m'. update m ags = Inr m' \<longrightarrow>
         bounded_below (edges (G m'))
         \<and> static_attributes (edges (G m')) = static_attributes (edges (G m)))
   \<and> (\<forall>steps m ags. run9c flt sp R loaded n seed steps = Inr (m, ags) \<longrightarrow>
         bounded_below (edges (G m)))
   \<and> (\<forall>m0 ags0 steps m ags.
         setup9c flt sp R loaded n seed = Inr (m0, ags0) \<longrightarrow>
         run9c flt sp R loaded n seed steps = Inr (m, ags) \<longrightarrow>
         static_attributes (edges (G m)) = static_attributes (edges (G m0)))"
proof (intro conjI allI impI)
  fix m0 ags0
  assume "setup9c flt sp R loaded n seed = Inr (m0, ags0)"
  from setup9c_edges [OF this] have "cast_edges flt (edges loaded) = Inr (edges (G m0))" by simp
  then show "\<forall>(u, v, k, d) \<in> set (edges (G m0)). travel_time d = base_travel_time d"
    by (rule cast_edges_travel_time)
next
  fix m a m' a'
  assume "step9c sp R m a = Inr (m', a')"
  then show "G m' = G m" by (simp add: step9c_frame)
next
  fix m ags m'
  assume "update m ags = Inr m'"
  from update_edges [OF this] show "bounded_below (edges (G m'))"
    by (simp add: spec_recompute_bounded_below)
next
  fix m ags m'
  assume "update m ags = Inr m'"
  from update_edges [OF this] show "static_attributes (edges (G m')) = static_attributes (edges (G m))"
    by (simp add: spec_recompute_static)
next
  fix steps m ags
  assume run: "run9c flt sp R loaded n seed steps = Inr (m, ags)"
  then obtain m0 ags0 m1 where
    1: "update m0 ags0 = Inr m1"
    and 2: "run_steps (sim_step9c sp R) (m1, ags0) steps = Inr (m, ags)"
    by (auto simp: run9c_def split: sum.splits)
  let ?P = "\<lambda>s. bounded_below (edges (G (fst s)))"
  have start: "?P (m1, ags0)" using update_edges [OF 1] by (simp add: spec_recompute_bounded_below)
  have step: "?P s'" if "?P s" and "sim_step9c sp R s = Inr s'" for s s'
  proof -
    from that(2) have "sim_step9c sp R (fst s, snd s) = Inr (fst s', snd s')" by simp
    from sim_step9c_edges [OF this] show ?thesis by (auto simp: spec_recompute_bounded_below)
  qed
  have "?P (m, ags)" by (rule run_steps_inv [where P = ?P, OF step start 2])
  then show "bounded_below (edges (G m))" by simp
next
  fix m0 ags0 steps m ags
  assume su: "setup9c flt sp R loaded n seed = Inr (m0, ags0)"
    and run: "run9c flt sp R loaded n seed steps = Inr (m, ags)"
  from run su obtain m1 where
    1: "update m0 ags0 = Inr m1"
    and 2: "run_steps (sim_step9c sp R) (m1, ags0) steps = Inr (m, ags)"
    by (auto simp: run9c_def split: sum.splits)
  let ?P = "\<lambda>s. static_attributes (edges (G (fst s))) = static_attributes (edges (G m0))"
  have start: "?P (m1, ags0)" using update_edges [OF 1] by (simp add: spec_recompute_static)
  have step: "?P s'" if "?P s" and "sim_step9c sp R s = Inr s'" for s s'
  proof -
    from that(2) have "sim_step9c sp R (fst s, snd s) = Inr (fst s', snd s')" by simp
    from sim_step9c_edges [OF this] that(1) show ?thesis by (auto simp: spec_recompute_static)
  qed
  have "?P (m, ags)" by (rule run_steps_inv [where P = ?P, OF step start 2])
  then show "static_attributes (edges (G m)) = static_attributes (edges (G m0))" by simp
qed

theorem travel_time_lower_bound_witness:
  "bounded_below (edges (G (fst (projr (run9c decimal_float shortest_path counting ex_loaded 11 0 2)))))
   \<and> edges (G (fst (projr (setup9c decimal_float shortest_path counting ex_loaded 11 0))))
       = [(0, 1, 0, \<lparr>lanes = 1, speed_kph = 30, base_travel_time = 10, travel_time = 10\<rparr>),
          (1, 0, 0, \<lparr>lanes = 2, speed_kph = 40, base_travel_time = 7.5, travel_time = 7.5\<rparr>)]
   \<and> edges (G (fst (projr (run9c decimal_float shortest_path counting ex_loaded 11 0 2))))
       = [(0, 1, 0, \<lparr>lanes = 1, speed_kph = 30, base_travel_time = 10, travel_time = 11\<rparr>),
          (1, 0, 0, \<lparr>lanes = 2, speed_kph = 40, base_travel_time = 7.5, travel_time = 7.5\<rparr>)]"
proof -
  let ?su = "setup9c decimal_float shortest_path counting ex_loaded 11 0"
  let ?run = "run9c decimal_float shortest_path counting ex_loaded 11 0 2"
  have es0: "edges (G (fst (projr ?su)))
       = [(0, 1, 0, \<lparr>lanes = 1, speed_kph = 30, base_travel_time = 10, travel_time = 10\<rparr>),
          (1, 0, 0, \<lparr>lanes = 2, speed_kph = 40, base_travel_time = 7.5, travel_time = 7.5\<rparr>)]"
    by code_simp
  have run_ok: "\<not> isl ?run" by code_simp
  have es: "edges (G (fst (projr ?run)))
       = [(0, 1, 0, \<lparr>lanes = 1, speed_kph = 30, base_travel_time = 10, travel_time = 11\<rparr>),
          (1, 0, 0, \<lparr>lanes = 2, speed_kph = 40, base_travel_time = 7.5, travel_time = 7.5\<rparr>)]"
    by code_simp
  from run_ok obtain m ags where run: "?run = Inr (m, ags)" by (cases ?run) auto
  note th = travel_time_lower_bound [of decimal_float shortest_path counting ex_loaded 11 0]
  from th [THEN conjunct2, THEN conjunct2, THEN conjunct2, THEN conjunct1, rule_format, OF run]
  have "bounded_below (edges (G m))" .
  with run es es0 show ?thesis by simp
qed

section \<open>Moves\<close>

text \<open>
  C5 as stated fails: \<^verbatim>\<open>move_agent\<close> has no adjacency check. In the example network node 2
  is not a neighbour of node 0, yet the move of the vehicle from 0 to 2 is applied.
\<close>

theorem move_agent_accepts_non_adjacent:
  "neighbors (G ex_far) 0 = Inr [1] \<and> \<not> isl (move_agent ex_far ex_vehicle 2)
   \<and> pos (snd (projr (move_agent ex_far ex_vehicle 2))) = Some 2"
  by (simp add: neighbors_def ex_far_def ex_vehicle_def move_agent_def)

text \<open>
  C5, amended. \<^verbatim>\<open>move_agent\<close> looks at the grid only: when the agent stands in the set of
  its current node and the new position is a key of the grid, the move is applied, adjacent
  or not; the only exception a move raises is \<^verbatim>\<open>KeyError\<close>.
\<close>

theorem move_agent_checks_keys_only:
  assumes "pos a = Some current_pos" and "grid m current_pos = Some here" and "aid a |\<in>| here"
    and "((grid m)(current_pos \<mapsto> here |-| {|aid a|})) new_pos = Some there"
  shows "move_agent m a new_pos =
           Inr (m\<lparr>grid := (grid m)(current_pos \<mapsto> here |-| {|aid a|}, new_pos \<mapsto> finsert (aid a) there),
                  agent_positions := (agent_positions m)(aid a \<mapsto> new_pos)\<rparr>,
                a\<lparr>pos := Some new_pos\<rparr>)
         \<and> (\<forall>m2 a2 p e. move_agent m2 a2 p = Inl e \<longrightarrow> e = KeyError)"
proof
  show "move_agent m a new_pos =
           Inr (m\<lparr>grid := (grid m)(current_pos \<mapsto> here |-| {|aid a|}, new_pos \<mapsto> finsert (aid a) there),
                  agent_positions := (agent_positions m)(aid a \<mapsto> new_pos)\<rparr>,
                a\<lparr>pos := Some new_pos\<rparr>)"
    using assms by (simp add: move_agent_def Let_def)
  show "\<forall>m2 a2 p e. move_agent m2 a2 p = Inl e \<longrightarrow> e = KeyError"
    by (auto simp: move_agent_def Let_def split: option.splits if_splits)
qed

theorem move_agent_checks_keys_only_witness:
  "neighbors (G ex_far) 0 = Inr [1]
   \<and> \<not> isl (move_agent ex_far ex_vehicle 2)
   \<and> pos (snd (projr (move_agent ex_far ex_vehicle 2))) = Some 2
   \<and> grid (fst (projr (move_agent ex_far ex_vehicle 2))) 0 = Some {||}
   \<and> grid (fst (projr (move_agent ex_far ex_vehicle 2))) 2 = Some {|1|}
   \<and> agent_positions (fst (projr (move_agent ex_far ex_vehicle 2))) 1 = Some 2"
proof -
  have "move_agent ex_far ex_vehicle 2 =
     Inr (ex_far\<lparr>grid := (grid ex_far)(0 \<mapsto> {|1|} |-| {|aid ex_vehicle|}, 2 \<mapsto> finsert (aid ex_vehicle) {||}),
                 agent_positions := (agent_positions ex_far)(aid ex_vehicle \<mapsto> 2)\<rparr>,
          ex_vehicle\<lparr>pos := Some 2\<rparr>)
     \<and> (\<forall>m2 a2 p e. move_agent m2 (a2 :: vehicle) p = Inl e \<longrightarrow> e = KeyError)"
    by (rule move_agent_checks_keys_only [of ex_vehicle 0 ex_far "{|1|}" 2 "{||}"])
      (simp_all add: ex_far_def ex_vehicle_def)
  then have moved: "move_agent ex_far ex_vehicle 2 =
     Inr (ex_far\<lparr>grid := (grid ex_far)(0 \<mapsto> {|1|} |-| {|aid ex_vehicle|}, 2 \<mapsto> finsert (aid ex_vehicle) {||}),
                 agent_positions := (agent_positions ex_far)(aid ex_vehicle \<mapsto> 2)\<rparr>,
          ex_vehicle\<lparr>pos := Some 2\<rparr>)"
    by (rule conjunct1)
  show ?thesis
    by (simp only: moved) (simp add: ex_far_def ex_vehicle_def neighbors_def)
qed

text \<open>
  C10. In the random walk of step6, the step of an agent whose node has no out-neighbour
  changes nothing: the model (grid, position tracker, random source) and the agent come
  back as they were, and no exception is raised.
\<close>

theorem step6_no_neighbors_noop:
  assumes "pos a = Some p" and "p \<in> set (nodes (G m))"
    and "\<forall>(u, v, k, d) \<in> set (edges (G m)). u \<noteq> p"
  shows "step6 R m a = Inr (m, a)"
proof -
  have "filter (\<lambda>(u, v, k, d). u = p) (edges (G m)) = []"
    using assms(3) by (auto simp: filter_empty_conv)
  then have "neighbors (G m) p = Inr []" using assms(2) by (simp add: neighbors_def)
  then show ?thesis using assms(1) by (simp add: step6_def)
qed

theorem step6_no_neighbors_noop_witness:
  "step6 counting ex_far (ex_vehicle\<lparr>pos := Some 2\<rparr>) = Inr (ex_far, ex_vehicle\<lparr>pos := Some 2\<rparr>)"
  using step6_no_neighbors_noop [of "ex_vehicle\<lparr>pos := Some 2\<rparr>" 2 ex_far counting]
  by (simp add: ex_far_def ex_vehicle_def)

section \<open>The occupancy index\<close>

lemma occupancy_inv_empty: "occupancy_inv (empty_grid ns) {}"
proof -
  have "dom (empty_grid ns) = set ns" by (auto simp: empty_grid_def split: if_splits)
  then show ?thesis by (auto simp: occupancy_inv_def empty_grid_def split: if_splits)
qed

lemma occupancy_inv_add:
  assumes inv: "occupancy_inv gr I" and new: "i \<notin> I" and here: "gr p = Some here"
  shows "occupancy_inv (gr(p \<mapsto> finsert i here)) (insert i I)"
  unfolding occupancy_inv_def
proof (intro conjI ballI allI impI)
  show "finite (dom (gr(p \<mapsto> finsert i here)))" using inv by (simp add: occupancy_inv_def)
next
  fix j assume j: "j \<in> insert i I"
  show "\<exists>!n. \<exists>S. (gr(p \<mapsto> finsert i here)) n = Some S \<and> j |\<in>| S"
  proof (cases "j = i")
    case True
    have nowhere: "\<not> (\<exists>S. gr n = Some S \<and> i |\<in>| S)" for n
      using inv new by (auto simp: occupancy_inv_def)
    show ?thesis
    proof (rule ex1I [of _ p])
      show "\<exists>S. (gr(p \<mapsto> finsert i here)) p = Some S \<and> j |\<in>| S" using True by simp
    next
      fix n assume "\<exists>S. (gr(p \<mapsto> finsert i here)) n = Some S \<and> j |\<in>| S"
      then show "n = p" using nowhere [of n] True by (auto split: if_splits)
    qed
  next
    case False
    with j have jI: "j \<in> I" by simp
    with inv obtain n where n: "\<exists>S. gr n = Some S \<and> j |\<in>| S"
      and uniq: "\<And>n'. \<exists>S. gr n' = Some S \<and> j |\<in>| S \<Longrightarrow> n' = n"
      unfolding occupancy_inv_def by blast
    show ?thesis
    proof (rule ex1I [of _ n])
      show "\<exists>S. (gr(p \<mapsto> finsert i here)) n = Some S \<and> j |\<in>| S"
        using n here by (cases "n = p") auto
    next
      fix n' assume "\<exists>S. (gr(p \<mapsto> finsert i here)) n' = Some S \<and> j |\<in>| S"
      then have "\<exists>S. gr n' = Some S \<and> j |\<in>| S"
        using False here by (cases "n' = p") auto
      then show "n' = n" by (rule uniq)
    qed
  qed
next
  fix n S j assume 1: "(gr(p \<mapsto> finsert i here)) n = Some S" and 2: "j |\<in>| S"
  from inv have only: "\<And>n S i. gr n = Some S \<Longrightarrow> i |\<in>| S \<Longrightarrow> i \<in> I"
    unfolding occupancy_inv_def by blast
  show "j \<in> insert i I"
  proof (cases "n = p")
    case True
    with 1 2 have "j = i \<or> j |\<in>| here" by auto
    with only [OF here] show ?thesis by auto
  next
    case False
    with 1 have "gr n = Some S" by simp
    from only [OF this 2] show ?thesis by simp
  qed
qed

lemma occupancy_inv_move:
  assumes inv: "occupancy_inv (grid m) I" and mem: "aid a \<in> I"
    and mv: "move_agent m a new_pos = Inr (m', a')"
  shows "occupancy_inv (grid m') I"
proof -
  from mv obtain cur here there where
    cur: "pos a = Some cur" and here: "grid m cur = Some here" and a_here: "aid a |\<in>| here"
    and there: "((grid m)(cur \<mapsto> here |-| {|aid a|})) new_pos = Some there"
    and g': "grid m' = (grid m)(cur \<mapsto> here |-| {|aid a|}, new_pos \<mapsto> finsert (aid a) there)"
    by (auto simp: move_agent_def Let_def split: option.splits if_splits)
  let ?i = "aid a"
  from inv have fin: "finite (dom (grid m))"
    and only: "\<And>n S i. grid m n = Some S \<Longrightarrow> i |\<in>| S \<Longrightarrow> i \<in> I"
    by (auto simp: occupancy_inv_def)
  have at_most: "n = n'" if "grid m n = Some S" "i |\<in>| S" "grid m n' = Some S'" "i |\<in>| S'" for n n' S S' i
  proof -
    from only that(1,2) have "i \<in> I" by blast
    with inv have "\<exists>!n. \<exists>S. grid m n = Some S \<and> i |\<in>| S" by (simp add: occupancy_inv_def)
    with that show ?thesis by blast
  qed
  have somewhere: "\<exists>n S. grid m n = Some S \<and> i |\<in>| S" if "i \<in> I" for i
    using inv that unfolding occupancy_inv_def by blast
  show ?thesis
  proof (cases "new_pos = cur")
    case True
    with there have "there = here |-| {|?i|}" by simp
    then have "finsert ?i there = here" using a_here by auto
    with g' True have "grid m' = (grid m)(cur \<mapsto> here)" by simp
    also have "\<dots> = grid m" using here by (auto simp: fun_eq_iff)
    finally show ?thesis using inv by simp
  next
    case False
    with there have there': "grid m new_pos = Some there" by simp
    have a_not_there: "?i |\<notin>| there"
      using at_most [OF here a_here there'] False by auto
    have look: "grid m' n = (if n = new_pos then Some (finsert ?i there)
                             else if n = cur then Some (here |-| {|?i|}) else grid m n)" for n
      unfolding g' by simp
    show ?thesis
      unfolding occupancy_inv_def
    proof (intro conjI ballI allI impI)
      have "dom (grid m') = dom (grid m)"
        unfolding g' using here there' by auto
      with fin show "finite (dom (grid m'))" by simp
    next
      fix j assume j: "j \<in> I"
      show "\<exists>!n. \<exists>S. grid m' n = Some S \<and> j |\<in>| S"
      proof (cases "j = ?i")
        case True
        show ?thesis
        proof (rule ex1I [of _ new_pos])
          show "\<exists>S. grid m' new_pos = Some S \<and> j |\<in>| S" using True by (simp add: look)
        next
          fix n assume n: "\<exists>S. grid m' n = Some S \<and> j |\<in>| S"
          show "n = new_pos"
          proof (rule ccontr)
            assume ne: "n \<noteq> new_pos"
            show False
            proof (cases "n = cur")
              case True
              with n ne \<open>j = ?i\<close> show False by (simp add: look)
            next
              case False
              with n ne obtain S where "grid m n = Some S" "j |\<in>| S" by (auto simp: look)
              with at_most [OF here a_here, of n S] \<open>j = ?i\<close> False show False by auto
            qed
          qed
        qed
      next
        case False
        from somewhere [OF j] obtain n S where n: "grid m n = Some S" "j |\<in>| S" by blast
        show ?thesis
        proof (rule ex1I [of _ n])
          show "\<exists>S. grid m' n = Some S \<and> j |\<in>| S"
            using n False here there' by (auto simp: look)
        next
          fix n' assume "\<exists>S. grid m' n' = Some S \<and> j |\<in>| S"
          then obtain S' where "grid m n' = Some S'" "j |\<in>| S'"
            using False here there' by (auto simp: look split: if_splits)
          with at_most [OF n] show "n' = n" by auto
        qed
      qed
    next
      fix n S j assume "grid m' n = Some S" and "j |\<in>| S"
      then show "j \<in> I"
        using only [OF here] only [OF there'] only [of n S j] mem
        by (auto simp: look split: if_splits)
    qed
  qed
qed

lemma occupancy_sum:
  assumes "occupancy_inv gr I" and "finite I"
  shows "(\<Sum>n \<in> dom gr. occupancy gr n) = card I"
proof -
  let ?A = "\<lambda>n. fset (the (gr n))"
  from assms(1) have fin: "finite (dom gr)" by (simp add: occupancy_inv_def)
  have disj: "\<forall>n \<in> dom gr. \<forall>n' \<in> dom gr. n \<noteq> n' \<longrightarrow> ?A n \<inter> ?A n' = {}"
  proof (intro ballI impI)
    fix n n' assume n: "n \<in> dom gr" and n': "n' \<in> dom gr" and ne: "n \<noteq> n'"
    show "?A n \<inter> ?A n' = {}"
    proof (rule ccontr)
      assume "?A n \<inter> ?A n' \<noteq> {}"
      then obtain i where i: "i \<in> ?A n" "i \<in> ?A n'" by blast
      from n n' obtain S S' where S: "gr n = Some S" "gr n' = Some S'" by auto
      with i have mem: "i |\<in>| S" "i |\<in>| S'" by simp_all
      with assms(1) S have "i \<in> I" unfolding occupancy_inv_def by blast
      with assms(1) have "\<exists>!n. \<exists>S. gr n = Some S \<and> i |\<in>| S" by (simp add: occupancy_inv_def)
      with S mem ne show False by blast
    qed
  qed
  have union: "(\<Union>n \<in> dom gr. ?A n) = I"
  proof
    show "(\<Union>n \<in> dom gr. ?A n) \<subseteq> I"
      using assms(1) unfolding occupancy_inv_def by fastforce
    show "I \<subseteq> (\<Union>n \<in> dom gr. ?A n)"
    proof
      fix i assume "i \<in> I"
      with assms(1) obtain n S where "gr n = Some S" "i |\<in>| S" unfolding occupancy_inv_def by blast
      then show "i \<in> (\<Union>n \<in> dom gr. ?A n)" by force
    qed
  qed
  have "(\<Sum>n \<in> dom gr. occupancy gr n) = (\<Sum>n \<in> dom gr. card (?A n))"
    by (rule sum.cong) (auto simp: occupancy_def fcard.rep_eq)
  also have "\<dots> = card (\<Union>n \<in> dom gr. ?A n)"
    by (rule card_UN_disjoint [symmetric]) (use fin disj in auto)
  finally show ?thesis using union by simp
qed


lemma create_agents_ids:
  "create_agents R r ns ids = Inr (as, r') \<Longrightarrow> map aid as = ids"
proof (induction ids arbitrary: r as)
  case Nil
  then show ?case by auto
next
  case (Cons i ids)
  from Cons.prems obtain d r1 as1 where
    1: "create_agents R r1 ns ids = Inr (as1, r')"
    and 2: "as = \<lparr>aid = i, pos = None, destination = d, path = []\<rparr> # as1"
    by (auto split: sum.splits prod.splits)
  from Cons.IH [OF 1] 2 show ?case by simp
qed

lemma place_agent_occupancy:
  assumes "occupancy_inv (grid m) I" and "aid a \<notin> I"
    and "place_agent sp w R m a p = Inr (m', a')"
  shows "occupancy_inv (grid m') (insert (aid a) I) \<and> aid a' = aid a"
proof -
  from assms(3) obtain here where here: "grid m p = Some here"
    and c: "calculate_new_path sp w R
              (m\<lparr>grid := (grid m)(p \<mapsto> finsert (aid a) here),
                 agent_positions := (agent_positions m)(aid a \<mapsto> p)\<rparr>)
              (a\<lparr>pos := Some p\<rparr>) = Inr (m', a')"
    by (auto simp: place_agent_def split: option.splits)
  from calculate_new_path_frame [OF c]
  have "grid m' = (grid m)(p \<mapsto> finsert (aid a) here)" and "aid a' = aid a" by simp_all
  with occupancy_inv_add [OF assms(1,2) here] show ?thesis by simp
qed

lemma place_agents_occupancy:
  "occupancy_inv (grid m) I \<Longrightarrow> set (map aid as) \<inter> I = {} \<Longrightarrow> distinct (map aid as) \<Longrightarrow>
   place_agents sp w R m as ps = Inr (m', as') \<Longrightarrow>
     occupancy_inv (grid m') (I \<union> set (map aid as)) \<and> map aid as' = map aid as"
proof (induction sp w R m as ps arbitrary: I m' as' rule: place_agents.induct)
  case (1 sp w R m ps)
  then show ?case by simp
next
  case (2 sp w R m a as)
  then show ?case by simp
next
  case (3 sp w R m a as p ps)
  from "3.prems"(4) obtain m1 a1 as1 where
    a: "place_agent sp w R m a p = Inr (m1, a1)"
    and b: "place_agents sp w R m1 as ps = Inr (m', as1)" and c: "as' = a1 # as1"
    by (auto split: sum.splits prod.splits)
  from "3.prems"(2) have fresh: "aid a \<notin> I" by auto
  from place_agent_occupancy [OF "3.prems"(1) fresh a]
  have inv1: "occupancy_inv (grid m1) (insert (aid a) I)" and id1: "aid a1 = aid a" by simp_all
  have disj: "set (map aid as) \<inter> insert (aid a) I = {}"
    using "3.prems"(2,3) by auto
  have dist: "distinct (map aid as)" using "3.prems"(3) by simp
  from "3.IH" [OF a refl inv1 disj dist b]
  have "occupancy_inv (grid m') (insert (aid a) I \<union> set (map aid as))"
    and "map aid as1 = map aid as" by simp_all
  with c id1 show ?case by (simp add: Un_commute insert_commute)
qed

lemma setup9c_occupancy:
  assumes "setup9c flt sp R loaded n seed = Inr (m, as)"
  shows "occupancy_inv (grid m) (set (map aid as)) \<and> distinct (map aid as)"
proof -
  obtain es where 1: "cast_edges flt (edges loaded) = Inr es"
    using assms unfolding setup9c_def by (cases "cast_edges flt (edges loaded)") simp_all
  obtain agents r1 where c: "create_agents R seed (nodes loaded) [1 ..< Suc n] = Inr (agents, r1)"
    using assms 1 unfolding setup9c_def
    by (cases "create_agents R seed (nodes loaded) [1 ..< Suc n]") (auto simp del: upt_Suc)
  obtain ps r2 where d: "choices R r1 (nodes loaded) n = Inr (ps, r2)"
    using assms 1 c unfolding setup9c_def
    by (cases "choices R r1 (nodes loaded) n") (auto simp del: upt_Suc)
  define m0 :: "(edge_data, 'a) model" where
    "m0 = \<lparr>G = \<lparr>nodes = nodes loaded, edges = es\<rparr>, graph_nodes = nodes loaded,
           grid = empty_grid (nodes loaded), agent_positions = Map.empty, rng = r2, t = 0\<rparr>"
  have 2: "place_agents sp travel_time R m0 agents ps = Inr (m, as)"
    using assms 1 c d unfolding setup9c_def m0_def by (simp del: upt_Suc)
  have ids: "map aid agents = [1 ..< Suc n]" using create_agents_ids [OF c] .
  have inv0: "occupancy_inv (grid m0) {}" by (simp add: m0_def occupancy_inv_empty)
  have dist: "distinct (map aid agents)" unfolding ids by (rule distinct_upt)
  have "occupancy_inv (grid m) ({} \<union> set (map aid agents)) \<and> map aid as = map aid agents"
    by (rule place_agents_occupancy [OF inv0 _ dist 2]) simp
  with dist show ?thesis by simp
qed

lemma pop_and_move_occupancy:
  assumes "occupancy_inv (grid m) I" and "aid a \<in> I" and "pop_and_move m a = Inr (m', a')"
  shows "occupancy_inv (grid m') I"
proof -
  from assms(3) obtain new_pos rest where
    mv: "move_agent m (a\<lparr>path := rest\<rparr>) new_pos = Inr (m', a')"
    by (auto simp: pop_and_move_def split: list.splits)
  have "aid (a\<lparr>path := rest\<rparr>) \<in> I" using assms(2) by simp
  from occupancy_inv_move [OF assms(1) this mv] show ?thesis .
qed

lemma follow_path_occupancy:
  assumes "occupancy_inv (grid m) I" and "aid a \<in> I" and "follow_path sp w R m a = Inr (m', a')"
  shows "occupancy_inv (grid m') I"
proof (cases "path a = []")
  case False
  with assms(3) have "pop_and_move m a = Inr (m', a')" by (simp add: follow_path_def)
  from pop_and_move_occupancy [OF assms(1,2) this] show ?thesis .
next
  case True
  with assms(3) obtain d r' m1 a1 where
    c: "calculate_new_path sp w R (m\<lparr>rng := r'\<rparr>) (a\<lparr>destination := d\<rparr>) = Inr (m1, a1)"
    and rest: "(if path a1 = [] then Inr (m1, a1) else pop_and_move m1 a1) = Inr (m', a')"
    by (auto simp: follow_path_def split: sum.splits prod.splits)
  from calculate_new_path_frame [OF c] have g1: "grid m1 = grid m" and id1: "aid a1 = aid a"
    by simp_all
  show ?thesis
  proof (cases "path a1 = []")
    case True
    with rest g1 assms(1) show ?thesis by simp
  next
    case False
    with rest have "pop_and_move m1 a1 = Inr (m', a')" by simp
    from pop_and_move_occupancy [OF _ _ this, of I] g1 id1 assms(1,2) show ?thesis by simp
  qed
qed

lemma step9c_occupancy:
  assumes "occupancy_inv (grid m) I" and "aid a \<in> I" and "step9c sp R m a = Inr (m', a')"
  shows "occupancy_inv (grid m') I"
proof (cases "t m mod RECALCULATE_PATH_STEPS = 0")
  case False
  with assms(3) have "follow_path sp travel_time R m a = Inr (m', a')" by (simp add: step9c_def)
  from follow_path_occupancy [OF assms(1,2) this] show ?thesis .
next
  case True
  with assms(3) obtain m1 a1 where
    c: "calculate_new_path sp travel_time R m a = Inr (m1, a1)"
    and f: "follow_path sp travel_time R m1 a1 = Inr (m', a')"
    by (auto simp: step9c_def split: sum.splits prod.splits)
  from calculate_new_path_frame [OF c] have "grid m1 = grid m" and "aid a1 = aid a" by simp_all
  with follow_path_occupancy [OF _ _ f, of I] assms(1,2) show ?thesis by simp
qed

lemma step_all_occupancy:
  assumes "\<And>m a m' a'. f m a = Inr (m', a') \<Longrightarrow> aid a' = aid a"
    and "\<And>m a m' a'. occupancy_inv (grid m) I \<Longrightarrow> aid a \<in> I \<Longrightarrow> f m a = Inr (m', a')
            \<Longrightarrow> occupancy_inv (grid m') I"
  shows "occupancy_inv (grid m) I \<Longrightarrow> set (map aid as) \<subseteq> I \<Longrightarrow> step_all f m as = Inr (m', as')
           \<Longrightarrow> occupancy_inv (grid m') I \<and> map aid as' = map aid as"
proof (induction as arbitrary: m m' as')
  case Nil
  then show ?case by simp
next
  case (Cons a as)
  from Cons.prems(3) obtain m1 a1 as1 where
    1: "f m a = Inr (m1, a1)" and 2: "step_all f m1 as = Inr (m', as1)" and 3: "as' = a1 # as1"
    by (auto split: sum.splits prod.splits)
  from Cons.prems(2) have a: "aid a \<in> I" and rest: "set (map aid as) \<subseteq> I" by simp_all
  from assms(2) [OF Cons.prems(1) a 1] have inv1: "occupancy_inv (grid m1) I" .
  from Cons.IH [OF inv1 rest 2] assms(1) [OF 1] 3 show ?case by simp
qed

lemma update_grid: "update m as = Inr m' \<Longrightarrow> grid m' = grid m"
  by (auto simp: update_def split: sum.splits if_splits)

lemma sim_step9c_occupancy:
  assumes "occupancy_inv (grid m) (set (map aid as))"
    and "sim_step9c sp R (m, as) = Inr (m', as')"
  shows "occupancy_inv (grid m') (set (map aid as')) \<and> map aid as' = map aid as"
proof -
  from assms(2) obtain m1 where
    1: "step_all (step9c sp R) (m\<lparr>t := t m + 1\<rparr>) as = Inr (m1, as')" and 2: "update m1 as' = Inr m'"
    by (auto simp: sim_step9c_def split: sum.splits prod.splits)
  have start: "occupancy_inv (grid (m\<lparr>t := t m + 1\<rparr>)) (set (map aid as))" using assms(1) by simp
  have "occupancy_inv (grid m1) (set (map aid as)) \<and> map aid as' = map aid as"
  proof (rule step_all_occupancy [OF _ _ start _ 1])
    show "aid a' = aid a" if "step9c sp R m a = Inr (m', a')" for m a m' a'
      using step9c_frame [OF that] by simp
    show "occupancy_inv (grid m') (set (map aid as))"
      if "occupancy_inv (grid m) (set (map aid as))" "aid a \<in> set (map aid as)"
        "step9c sp R m a = Inr (m', a')" for m a m' a'
      using step9c_occupancy [OF that] .
    show "set (map aid as) \<subseteq> set (map aid as)" by simp
  qed
  with update_grid [OF 2] show ?thesis by simp
qed


lemma occupancy_ok_from_inv:
  assumes "occupancy_inv gr (set (map aid as))" and "distinct (map aid as)"
  shows "occupancy_ok gr as"
proof -
  have "(\<Sum>n \<in> dom gr. occupancy gr n) = card (set (map aid as))"
    by (rule occupancy_sum [OF assms(1)]) simp
  also have "\<dots> = length as" using distinct_card [OF assms(2)] by simp
  finally show ?thesis using assms(1) by (auto simp: occupancy_ok_def occupancy_inv_def)
qed

text \<open>
  C3. At every tick each agent identifier stands in the occupancy set of exactly one node,
  the sets hold live agents only, and the occupancies sum to the number of agents: after
  \<^verbatim>\<open>setup\<close> and at the end of every run of step9c. Every move that \<^verbatim>\<open>move_agent\<close> applies
  keeps the index and records the new position in the agent and in the tracker.
\<close>

theorem occupancy_index_invariant:
  "(\<forall>m ags. setup9c flt sp R loaded n seed = Inr (m, ags) \<longrightarrow> occupancy_ok (grid m) ags)
   \<and> (\<forall>steps m ags. run9c flt sp R loaded n seed steps = Inr (m, ags) \<longrightarrow> occupancy_ok (grid m) ags)
   \<and> (\<forall>m a new_pos m' a' I. occupancy_inv (grid m) I \<longrightarrow> aid a \<in> I
         \<longrightarrow> move_agent m a new_pos = Inr (m', a')
         \<longrightarrow> occupancy_inv (grid m') I \<and> pos a' = Some new_pos
             \<and> agent_positions m' (aid a) = Some new_pos)"
proof (intro conjI allI impI)
  fix m ags assume "setup9c flt sp R loaded n seed = Inr (m, ags)"
  from setup9c_occupancy [OF this] show "occupancy_ok (grid m) ags"
    by (intro occupancy_ok_from_inv) simp_all
next
  fix steps m ags assume run: "run9c flt sp R loaded n seed steps = Inr (m, ags)"
  then obtain m0 ags0 m1 where
    0: "setup9c flt sp R loaded n seed = Inr (m0, ags0)" and 1: "update m0 ags0 = Inr m1"
    and 2: "run_steps (sim_step9c sp R) (m1, ags0) steps = Inr (m, ags)"
    by (auto simp: run9c_def split: sum.splits prod.splits)
  let ?P = "\<lambda>s. occupancy_inv (grid (fst s)) (set (map aid (snd s))) \<and> distinct (map aid (snd s))"
  have start: "?P (m1, ags0)" using setup9c_occupancy [OF 0] update_grid [OF 1] by simp
  have step: "?P s'" if "?P s" and "sim_step9c sp R s = Inr s'" for s s'
  proof -
    obtain ma as ma' as' where s: "s = (ma, as)" "s' = (ma', as')" by (cases s, cases s') auto
    from that s have inv: "occupancy_inv (grid ma) (set (map aid as))"
      and dist: "distinct (map aid as)"
      and st: "sim_step9c sp R (ma, as) = Inr (ma', as')" by simp_all
    from sim_step9c_occupancy [OF inv st]
    have a: "occupancy_inv (grid ma') (set (map aid as'))" and b: "map aid as' = map aid as"
      by blast+
    from dist b have "distinct (map aid as')" by (simp only:)
    with a show ?thesis by (simp only: s fst_conv snd_conv)
  qed
  have "?P (m, ags)"
    by (rule run_steps_inv [where P = ?P, OF step start 2])
  then have "occupancy_inv (grid m) (set (map aid ags))" "distinct (map aid ags)"
    by (simp_all only: fst_conv snd_conv)
  then show "occupancy_ok (grid m) ags" by (rule occupancy_ok_from_inv)
next
  fix m a new_pos m' a' I
  assume "occupancy_inv (grid m) I" "aid a \<in> I" "move_agent m a new_pos = Inr (m', a')"
  then show "occupancy_inv (grid m') I" by (rule occupancy_inv_move)
next
  fix m a new_pos m' a' I
  assume "move_agent m a new_pos = Inr (m', a')"
  then show "pos a' = Some new_pos"
    by (auto simp: move_agent_def Let_def split: option.splits if_splits)
next
  fix m a new_pos m' a' I
  assume "move_agent m a new_pos = Inr (m', a')"
  then show "agent_positions m' (aid a) = Some new_pos"
    by (auto simp: move_agent_def Let_def split: option.splits if_splits)
qed

theorem occupancy_index_invariant_witness:
  "occupancy_ok (grid (fst (projr (run9c decimal_float shortest_path counting ex_loaded 1 0 2))))
     (snd (projr (run9c decimal_float shortest_path counting ex_loaded 1 0 2)))
   \<and> map pos (snd (projr (run9c decimal_float shortest_path counting ex_loaded 1 0 2))) = [Some 0]
   \<and> grid (fst (projr (run9c decimal_float shortest_path counting ex_loaded 1 0 2))) 0 = Some {|1|}
   \<and> grid (fst (projr (run9c decimal_float shortest_path counting ex_loaded 1 0 2))) 1 = Some {||}"
proof -
  let ?run = "run9c decimal_float shortest_path counting ex_loaded 1 0 2"
  have run_ok: "\<not> isl ?run"
    and shape: "map pos (snd (projr ?run)) = [Some 0]" "grid (fst (projr ?run)) 0 = Some {|1|}"
      "grid (fst (projr ?run)) 1 = Some {||}"
    by (simp_all add: run9c_eval ex_loaded_def numeral_2_eq_2)
  from run_ok obtain m ags where run: "?run = Inr (m, ags)" by (cases ?run) auto
  from occupancy_index_invariant [of decimal_float shortest_path counting ex_loaded 1 0] run
  have "occupancy_ok (grid m) ags" by blast
  with run shape show ?thesis by simp
qed

section \<open>The router is correct\<close>

lemma out_edges_nodes: "wf_graph g \<Longrightarrow> (v, c) \<in> set (out_edges w g u) \<Longrightarrow> v \<in> set (nodes g)"
  by (auto simp: wf_graph_def out_edges_def)

lemma out_edges_nonneg: "nonneg_weights w g \<Longrightarrow> (v, c) \<in> set (out_edges w g u) \<Longrightarrow> 0 \<le> c"
  by (auto simp: nonneg_weights_def out_edges_def)

lemma edge_weight_attained:
  assumes "edge_weight w g u v = Some c"
  shows "(v, c) \<in> set (out_edges w g u)"
proof -
  let ?cs = "map snd (filter (\<lambda>(v', c). v' = v) (out_edges w g u))"
  from assms obtain x xs where xs: "?cs = x # xs" and c: "c = fold min xs x"
    by (auto simp: edge_weight_def split: list.splits)
  have "c = Min (set (x # xs))" unfolding c by (rule Min.set_eq_fold [symmetric])
  then have "c \<in> set (x # xs)" using Min_in [of "set (x # xs)"] by simp
  then have "c \<in> set ?cs" using xs by simp
  then show ?thesis by auto
qed

lemma edge_weight_least:
  assumes "(v, c) \<in> set (out_edges w g u)"
  shows "\<exists>c'. edge_weight w g u v = Some c' \<and> c' \<le> c"
proof -
  let ?cs = "map snd (filter (\<lambda>(v', c). v' = v) (out_edges w g u))"
  have mem: "c \<in> set ?cs" using assms by force
  then obtain x xs where xs: "?cs = x # xs" by (cases ?cs) auto
  have "edge_weight w g u v = Some (fold min xs x)" using xs by (simp add: edge_weight_def)
  moreover have "fold min xs x = Min (set (x # xs))" by (rule Min.set_eq_fold [symmetric])
  moreover have "Min (set (x # xs)) \<le> c" using mem xs by (intro Min_le) auto
  ultimately show ?thesis by simp
qed

lemma path_weight_snoc:
  "p \<noteq> [] \<Longrightarrow> path_weight w g (p @ [v]) =
     (case path_weight w g p of
        None \<Rightarrow> None
      | Some c \<Rightarrow> (case edge_weight w g (last p) v of None \<Rightarrow> None | Some e \<Rightarrow> Some (c + e)))"
proof (induction w g p rule: path_weight.induct)
  case (1 w g)
  then show ?case by simp
next
  case (2 w g x)
  then show ?case by (simp split: option.splits)
next
  case (3 w g x y rest)
  then show ?case by (simp split: option.splits)
qed

lemma path_weight_nonneg:
  "nonneg_weights w g \<Longrightarrow> path_weight w g p = Some c \<Longrightarrow> 0 \<le> c"
proof (induction w g p arbitrary: c rule: path_weight.induct)
  case (1 w g)
  then show ?case by simp
next
  case (2 w g x)
  then show ?case by simp
next
  case (3 w g x y rest)
  from "3.prems"(2) obtain e c' where e: "edge_weight w g x y = Some e"
    and c': "path_weight w g (y # rest) = Some c'" and c: "c = e + c'"
    by (auto split: option.splits)
  have "0 \<le> e" using edge_weight_attained [OF e] out_edges_nonneg "3.prems"(1) by blast
  moreover have "0 \<le> c'" using "3.IH" [OF e "3.prems"(1) c'] .
  ultimately show ?case using c by simp
qed

lemma relax_edge_finished: "v \<in> set F \<Longrightarrow> relax_edge du pu F e L v = L v"
  by (auto simp: relax_edge_def split: option.splits prod.splits)

lemma relax_edge_decreases:
  "L v = Some (d, p) \<Longrightarrow> \<exists>d' p'. relax_edge du pu F e L v = Some (d', p') \<and> d' \<le> d"
  by (auto simp: relax_edge_def split: option.splits prod.splits)

lemma relax_edge_relaxed:
  "v \<notin> set F \<Longrightarrow> \<exists>d' p'. relax_edge du pu F (v, c) L v = Some (d', p') \<and> d' \<le> du + c"
  by (auto simp: relax_edge_def split: option.splits prod.splits)

lemma relax_edge_origin:
  "relax_edge du pu F e L v = Some (d', p') \<Longrightarrow>
     L v = Some (d', p') \<or> (v \<notin> set F \<and> p' = pu @ [v] \<and> (\<exists>c. e = (v, c) \<and> d' = du + c))"
  by (auto simp: relax_edge_def split: option.splits prod.splits if_splits)

lemma relax_finished: "v \<in> set F \<Longrightarrow> relax du pu F es L v = L v"
  by (induction es arbitrary: L) (auto simp: relax_edge_finished)

lemma relax_decreases:
  "L v = Some (d, p) \<Longrightarrow> \<exists>d' p'. relax du pu F es L v = Some (d', p') \<and> d' \<le> d"
proof (induction es arbitrary: L d p)
  case Nil
  then show ?case by simp
next
  case (Cons e es)
  define L1 where "L1 = relax_edge du pu F e L"
  from relax_edge_decreases [where L = L and v = v and du = du and pu = pu and F = F and e = e,
      OF Cons.prems]
  obtain d1 p1 where 1: "L1 v = Some (d1, p1)" and 2: "d1 \<le> d" unfolding L1_def by blast
  from Cons.IH [of L1, OF 1] obtain d' p' where "relax du pu F es L1 v = Some (d', p')" and "d' \<le> d1"
    by blast
  with 2 show ?case by (auto simp: L1_def)
qed

lemma relax_relaxed:
  "(v, c) \<in> set es \<Longrightarrow> v \<notin> set F \<Longrightarrow>
     \<exists>d' p'. relax du pu F es L v = Some (d', p') \<and> d' \<le> du + c"
proof (induction es arbitrary: L)
  case Nil
  then show ?case by simp
next
  case (Cons e es)
  define L1 where "L1 = relax_edge du pu F e L"
  have step: "relax du pu F (e # es) L = relax du pu F es L1" by (simp add: L1_def)
  show ?case
  proof (cases "(v, c) = e")
    case True
    from relax_edge_relaxed [where L = L and v = v and du = du and pu = pu and c = c,
        OF Cons.prems(2)] True
    obtain d1 p1 where 1: "L1 v = Some (d1, p1)" and 2: "d1 \<le> du + c"
      unfolding L1_def by blast
    from relax_decreases [where L = L1 and v = v and du = du and pu = pu and F = F and es = es,
        OF 1] 2
    show ?thesis unfolding step by fastforce
  next
    case False
    with Cons.prems have "(v, c) \<in> set es" by auto
    from Cons.IH [OF this Cons.prems(2), of L1] show ?thesis unfolding step .
  qed
qed

lemma relax_origin:
  "relax du pu F es L v = Some (d', p') \<Longrightarrow>
     L v = Some (d', p') \<or> (v \<notin> set F \<and> p' = pu @ [v] \<and> (\<exists>c. (v, c) \<in> set es \<and> d' = du + c))"
proof (induction es arbitrary: L)
  case Nil
  then show ?case by simp
next
  case (Cons e es)
  define L1 where "L1 = relax_edge du pu F e L"
  have step: "relax du pu F (e # es) L = relax du pu F es L1" by (simp add: L1_def)
  from Cons.prems have "relax du pu F es L1 v = Some (d', p')" unfolding step .
  from Cons.IH [of L1, OF this] consider
    (old) "L1 v = Some (d', p')"
    | (new) "v \<notin> set F" "p' = pu @ [v]" "\<exists>c. (v, c) \<in> set es \<and> d' = du + c"
    by blast
  then show ?case
  proof cases
    case old
    from relax_edge_origin [where L = L and v = v, OF old [unfolded L1_def]] show ?thesis by auto
  next
    case new
    then show ?thesis by auto
  qed
qed

lemma label_dist_Some: "L v = Some (d, p) \<Longrightarrow> label_dist L v = d"
  by (simp add: label_dist_def)

lemma dijkstra_inv_init:
  "s \<in> set (nodes g) \<Longrightarrow> dijkstra_inv w g s [] [s \<mapsto> (0, [s])]"
  by (simp add: dijkstra_inv_def source_labelled_def labels_are_paths_def finished_labelled_def
      finished_relaxed_def finished_first_def)

lemma dijkstra_step_inv:
  assumes wf: "wf_graph g" and nn: "nonneg_weights w g"
    and inv: "dijkstra_inv w g s F L"
    and fr: "frontier g F L = c # cs"
    and u: "u = pick_min (label_dist L) c cs"
    and lu: "L u = Some (du, pu)"
  shows "dijkstra_inv w g s (u # F) (relax du pu (u # F) (out_edges w g u) L)"
proof -
  define F' where "F' = u # F"
  define L' where "L' = relax du pu F' (out_edges w g u) L"
  from inv have A: "source_labelled s L" and B: "labels_are_paths w g s F L"
    and C: "finished_labelled F L" and D: "finished_relaxed w g F L" and E: "finished_first F L"
    by (simp_all add: dijkstra_inv_def)
  have u_fr: "u \<in> set (frontier g F L)"
    using pick_min_mem [of "label_dist L" c cs] fr u by simp
  then have u_nodes: "u \<in> set (nodes g)" and u_nf: "u \<notin> set F"
    by (auto simp: frontier_def)
  have du: "label_dist L u = du" using lu by (rule label_dist_Some)
  have u_min: "du \<le> label_dist L y" if "y \<notin> set F" "L y \<noteq> None" for y
  proof -
    from that(2) obtain d p where "L y = Some (d, p)" by auto
    with B have "y \<in> set (nodes g)" by (auto simp: labels_are_paths_def)
    with that have "y \<in> set (c # cs)" unfolding fr [symmetric] by (simp add: frontier_def)
    from pick_min_le [OF this, of "label_dist L"] u du show ?thesis by simp
  qed
  have keep: "L' v = L v" if "v \<in> set F'" for v
    unfolding L'_def using that by (rule relax_finished)
  have dist_keep: "label_dist L' v = label_dist L v" if "v \<in> set F'" for v
    using keep [OF that] by (simp add: label_dist_def)
  from B lu have pu: "pu \<noteq> []" "hd pu = s" "last pu = u" "distinct pu" "set (butlast pu) \<subseteq> set F"
    and "\<exists>c. path_weight w g pu = Some c \<and> c \<le> du"
    by (auto simp: labels_are_paths_def)
  then obtain cpu where cpu: "path_weight w g pu = Some cpu" "cpu \<le> du" by blast
  have set_pu: "set pu \<subseteq> set F'"
  proof -
    from pu(1) obtain ys y where ys: "pu = ys @ [y]" by (cases pu rule: rev_cases) auto
    with pu(3,5) show ?thesis by (auto simp: F'_def)
  qed
  have A': "source_labelled s L'"
  proof -
    from A obtain d p where "L s = Some (d, p)" "d \<le> 0" by (auto simp: source_labelled_def)
    with relax_decreases [where L = L and v = s and du = du and pu = pu and F = F'
        and es = "out_edges w g u", OF this(1)]
    show ?thesis unfolding L'_def source_labelled_def by fastforce
  qed
  have B': "labels_are_paths w g s F' L'"
    unfolding labels_are_paths_def
  proof (intro allI impI)
    fix v d p
    assume lv: "L' v = Some (d, p)"
    from relax_origin [where L = L and v = v, OF lv [unfolded L'_def]] consider
      (old) "L v = Some (d, p)"
      | (new) "v \<notin> set F'" "p = pu @ [v]" "\<exists>c. (v, c) \<in> set (out_edges w g u) \<and> d = du + c"
      by blast
    then show "v \<in> set (nodes g) \<and> p \<noteq> [] \<and> hd p = s \<and> last p = v \<and> distinct p
        \<and> set (butlast p) \<subseteq> set F' \<and> (\<exists>c. path_weight w g p = Some c \<and> c \<le> d)"
    proof cases
      case old
      with B show ?thesis by (auto simp: labels_are_paths_def F'_def)
    next
      case new
      from new(3) obtain e where e: "(v, e) \<in> set (out_edges w g u)" and d: "d = du + e" by blast
      from edge_weight_least [OF e] obtain e' where e': "edge_weight w g u v = Some e'" "e' \<le> e"
        by blast
      have "path_weight w g p = Some (cpu + e')"
        unfolding new(2) using pu(1,3) cpu(1) e'(1) by (simp add: path_weight_snoc)
      moreover have "cpu + e' \<le> d" using cpu(2) e'(2) d by simp
      moreover have "v \<in> set (nodes g)" using out_edges_nodes [OF wf e] .
      moreover have "distinct p" using new(1,2) pu(4) set_pu by auto
      moreover have "hd p = s" "last p = v" "p \<noteq> []" "set (butlast p) \<subseteq> set F'"
        using new(2) pu(1,2) set_pu by auto
      ultimately show ?thesis by simp
    qed
  qed
  have C': "finished_labelled F' L'"
    unfolding finished_labelled_def
  proof
    fix x assume x: "x \<in> set F'"
    have "L x \<noteq> None" using x C lu by (auto simp: F'_def finished_labelled_def)
    with keep [OF x] show "L' x \<noteq> None" by simp
  qed
  have D': "finished_relaxed w g F' L'"
    unfolding finished_relaxed_def
  proof (intro ballI, clarify)
    fix x v e
    assume x: "x \<in> set F'" and e: "(v, e) \<in> set (out_edges w g x)"
    have e0: "0 \<le> e" using out_edges_nonneg [OF nn e] .
    show "\<exists>dv pv. L' v = Some (dv, pv) \<and> dv \<le> label_dist L' x + e"
    proof (cases "x = u")
      case True
      have dx: "label_dist L' x = du" using dist_keep [OF x] du True by simp
      show ?thesis
      proof (cases "v \<in> set F'")
        case vF: True
        show ?thesis
        proof (cases "v = u")
          case True
          then show ?thesis using keep [OF vF] lu dx e0 by simp
        next
          case False
          with vF have vin: "v \<in> set F" by (simp add: F'_def)
          with C obtain dv pv where lv: "L v = Some (dv, pv)" by (auto simp: finished_labelled_def)
          have "label_dist L v \<le> label_dist L u"
            using E vin u_nf lu by (auto simp: finished_first_def)
          then have "dv \<le> du" using lv du by (simp add: label_dist_def)
          then show ?thesis using keep [OF vF] lv dx e0 by simp
        qed
      next
        case False
        from relax_relaxed [where L = L and du = du and pu = pu, OF e [unfolded True] False]
        obtain d' p' where "L' v = Some (d', p')" "d' \<le> du + e" unfolding L'_def by blast
        with dx show ?thesis by simp
      qed
    next
      case False
      with x have xF: "x \<in> set F" by (simp add: F'_def)
      with D e obtain dv pv where lv: "L v = Some (dv, pv)" "dv \<le> label_dist L x + e"
        by (fastforce simp: finished_relaxed_def)
      from relax_decreases [where L = L and v = v and du = du and pu = pu and F = F'
          and es = "out_edges w g u", OF lv(1)]
      obtain d' p' where "L' v = Some (d', p')" "d' \<le> dv" unfolding L'_def by blast
      with lv(2) dist_keep [OF x] show ?thesis by simp
    qed
  qed
  have E': "finished_first F' L'"
    unfolding finished_first_def
  proof (intro ballI allI impI)
    fix x y
    assume x: "x \<in> set F'" and y: "y \<notin> set F'" and ly: "L' y \<noteq> None"
    from ly obtain d p where lyd: "L' y = Some (d, p)" by auto
    have x_le_u: "label_dist L x \<le> du"
    proof (cases "x = u")
      case True
      then show ?thesis using du by simp
    next
      case False
      with x have "x \<in> set F" by (simp add: F'_def)
      with E u_nf lu du show ?thesis by (auto simp: finished_first_def)
    qed
    from relax_origin [where L = L and v = y, OF lyd [unfolded L'_def]] consider
      (old) "L y = Some (d, p)"
      | (new) "\<exists>c. (y, c) \<in> set (out_edges w g u) \<and> d = du + c"
      by blast
    then have "label_dist L x \<le> d"
    proof cases
      case old
      from y have "y \<notin> set F" by (simp add: F'_def)
      from u_min [OF this] old have "du \<le> d" by (simp add: label_dist_def)
      with x_le_u show ?thesis by simp
    next
      case new
      then obtain e where e: "(y, e) \<in> set (out_edges w g u)" and d: "d = du + e" by blast
      have "0 \<le> e" using out_edges_nonneg [OF nn e] .
      with x_le_u d show ?thesis by simp
    qed
    then show "label_dist L' x \<le> label_dist L' y"
      using dist_keep [OF x] lyd by (simp add: label_dist_def)
  qed
  from A' B' C' D' E' show ?thesis
    unfolding dijkstra_inv_def F'_def L'_def by simp
qed

lemma dijkstra_final:
  "wf_graph g \<Longrightarrow> nonneg_weights w g \<Longrightarrow> dijkstra_inv w g s F L \<Longrightarrow>
     \<exists>F'. dijkstra_inv w g s F' (dijkstra w g F L) \<and> frontier g F' (dijkstra w g F L) = []"
proof (induction w g F L rule: dijkstra.induct)
  case (1 w g F L)
  note wf = "1.prems"(1) and nn = "1.prems"(2) and inv = "1.prems"(3)
  show ?case
  proof (cases "frontier g F L")
    case Nil
    then have "dijkstra w g F L = L" by simp
    with Nil inv show ?thesis by auto
  next
    case (Cons c cs)
    define u where "u = pick_min (label_dist L) c cs"
    have "u \<in> set (frontier g F L)" using pick_min_mem [of "label_dist L" c cs] Cons u_def by simp
    then obtain du pu where lu: "L u = Some (du, pu)" by (auto simp: frontier_def)
    have unfold: "dijkstra w g F L = dijkstra w g (u # F) (relax du pu (u # F) (out_edges w g u) L)"
      using Cons lu by (simp add: u_def [symmetric] Let_def del: dijkstra.simps add: dijkstra.simps [of w g F L])
    have inv': "dijkstra_inv w g s (u # F) (relax du pu (u # F) (out_edges w g u) L)"
      using dijkstra_step_inv [OF wf nn inv Cons u_def lu] .
    have "the (L u) = (du, pu)" using lu by simp
    from "1.IH" [OF Cons u_def this [symmetric] refl wf nn inv'] show ?thesis unfolding unfold .
  qed
qed

lemma finished_walk:
  assumes inv: "dijkstra_inv w g s F L" and fin: "frontier g F L = []"
  shows "x \<in> set F \<Longrightarrow> label_dist L x \<le> pre \<Longrightarrow> path_weight w g (x # rest) = Some c \<Longrightarrow>
     \<exists>d p. L (last (x # rest)) = Some (d, p) \<and> d \<le> pre + c"
proof (induction rest arbitrary: x pre c)
  case Nil
  from inv Nil.prems(1) obtain d p where "L x = Some (d, p)"
    by (auto simp: dijkstra_inv_def finished_labelled_def)
  with Nil.prems(2,3) show ?case by (simp add: label_dist_def)
next
  case (Cons y rest)
  from Cons.prems(3) obtain e c' where e: "edge_weight w g x y = Some e"
    and c': "path_weight w g (y # rest) = Some c'" and c: "c = e + c'"
    by (auto split: option.splits)
  have ye: "(y, e) \<in> set (out_edges w g x)" using edge_weight_attained [OF e] .
  with inv Cons.prems(1) obtain dy py where ly: "L y = Some (dy, py)" "dy \<le> label_dist L x + e"
    by (fastforce simp: dijkstra_inv_def finished_relaxed_def)
  from inv ly(1) have "y \<in> set (nodes g)" by (auto simp: dijkstra_inv_def labels_are_paths_def)
  have yF: "y \<in> set F"
  proof (rule ccontr)
    assume "y \<notin> set F"
    with \<open>y \<in> set (nodes g)\<close> ly(1) have "y \<in> set (frontier g F L)" by (simp add: frontier_def)
    with fin show False by simp
  qed
  have "label_dist L y \<le> pre + e" using ly Cons.prems(2) by (simp add: label_dist_def)
  from Cons.IH [OF yF this c'] c show ?case by (simp add: add.assoc)
qed

lemma dijkstra_from_source:
  assumes wf: "wf_graph g" and nn: "nonneg_weights w g" and s: "s \<in> set (nodes g)"
  defines "L \<equiv> dijkstra w g [] [s \<mapsto> (0, [s])]"
  shows "\<forall>v d p. L v = Some (d, p) \<longrightarrow>
           p \<noteq> [] \<and> hd p = s \<and> last p = v \<and> distinct p \<and> (\<exists>c. path_weight w g p = Some c \<and> c \<le> d)"
    and "\<forall>rest c. path_weight w g (s # rest) = Some c \<longrightarrow>
           (\<exists>d p. L (last (s # rest)) = Some (d, p) \<and> d \<le> c)"
proof -
  from dijkstra_final [OF wf nn dijkstra_inv_init [OF s]] obtain F where
    inv: "dijkstra_inv w g s F L" and fin: "frontier g F L = []"
    unfolding L_def by blast
  from inv show "\<forall>v d p. L v = Some (d, p) \<longrightarrow>
           p \<noteq> [] \<and> hd p = s \<and> last p = v \<and> distinct p \<and> (\<exists>c. path_weight w g p = Some c \<and> c \<le> d)"
    unfolding dijkstra_inv_def labels_are_paths_def by blast
  from inv obtain d0 p0 where ls: "L s = Some (d0, p0)" "d0 \<le> 0"
    by (auto simp: dijkstra_inv_def source_labelled_def)
  have sF: "s \<in> set F"
  proof (rule ccontr)
    assume "s \<notin> set F"
    with s ls(1) have "s \<in> set (frontier g F L)" by (simp add: frontier_def)
    with fin show False by simp
  qed
  have d0: "label_dist L s \<le> 0" using ls by (simp add: label_dist_def)
  show "\<forall>rest c. path_weight w g (s # rest) = Some c \<longrightarrow>
           (\<exists>d p. L (last (s # rest)) = Some (d, p) \<and> d \<le> c)"
  proof (intro allI impI)
    fix rest c
    assume "path_weight w g (s # rest) = Some c"
    from finished_walk [OF inv fin sF d0 this] show "\<exists>d p. L (last (s # rest)) = Some (d, p) \<and> d \<le> c"
      by simp
  qed
qed

lemma shortest_path_sound:
  assumes wf: "wf_graph g" and nn: "nonneg_weights w g"
    and sp: "shortest_path w g s tgt = Inr p"
  shows "\<exists>c. walk w g s tgt p c \<and> distinct p \<and> (\<forall>q c'. walk w g s tgt q c' \<longrightarrow> c \<le> c')"
proof -
  from sp have s: "s \<in> set (nodes g)" by (auto simp: shortest_path_def split: if_splits)
  from sp obtain d where lt: "dijkstra w g [] [s \<mapsto> (0, [s])] tgt = Some (d, p)"
    by (auto simp: shortest_path_def split: if_splits option.splits)
  note facts = dijkstra_from_source [OF wf nn s]
  from facts(1) lt obtain c where
    p: "p \<noteq> []" "hd p = s" "last p = tgt" "distinct p" "path_weight w g p = Some c" "c \<le> d"
    by blast
  have "c \<le> c'" if "walk w g s tgt q c'" for q c'
  proof -
    from that obtain rest where q: "q = s # rest" by (cases q) (auto simp: walk_def)
    from that q have "path_weight w g (s # rest) = Some c'" "last (s # rest) = tgt"
      by (auto simp: walk_def)
    with facts(2) lt have "d \<le> c'" by fastforce
    with p(6) show ?thesis by simp
  qed
  with p show ?thesis by (auto simp: walk_def)
qed

lemma shortest_path_complete:
  assumes wf: "wf_graph g" and nn: "nonneg_weights w g"
    and s: "s \<in> set (nodes g)" and tg: "tgt \<in> set (nodes g)" and q: "walk w g s tgt q c'"
  shows "\<exists>p. shortest_path w g s tgt = Inr p"
proof -
  from q obtain rest where q': "q = s # rest" by (cases q) (auto simp: walk_def)
  from q q' have "path_weight w g (s # rest) = Some c'" "last (s # rest) = tgt"
    by (auto simp: walk_def)
  with dijkstra_from_source(2) [OF wf nn s]
  obtain d p where "dijkstra w g [] [s \<mapsto> (0, [s])] tgt = Some (d, p)" by fastforce
  with s tg show ?thesis by (simp add: shortest_path_def)
qed

lemma shortest_path_errors:
  "shortest_path w g s tgt = Inl e \<Longrightarrow> e = NodeNotFound \<or> e = NetworkXNoPath"
  by (auto simp: shortest_path_def split: if_splits option.splits)

lemma path_weight_nodes:
  "wf_graph g \<Longrightarrow> path_weight w g (x # y # rest) = Some c \<Longrightarrow> set (x # y # rest) \<subseteq> set (nodes g)"
proof (induction rest arbitrary: x y c)
  case Nil
  from Nil.prems(2) obtain e where e: "edge_weight w g x y = Some e" by (auto split: option.splits)
  from edge_weight_attained [OF e] have "(y, e) \<in> set (out_edges w g x)" .
  then obtain k d where "(x, y, k, d) \<in> set (edges g)" by (auto simp: out_edges_def)
  with Nil.prems(1) show ?case by (auto simp: wf_graph_def)
next
  case (Cons z rest)
  from Cons.prems(2) obtain e c' where e: "edge_weight w g x y = Some e"
    and c': "path_weight w g (y # z # rest) = Some c'"
    by (auto split: option.splits)
  from edge_weight_attained [OF e] have "(y, e) \<in> set (out_edges w g x)" .
  then obtain k d where "(x, y, k, d) \<in> set (edges g)" by (auto simp: out_edges_def)
  with Cons.prems(1) have "x \<in> set (nodes g)" by (auto simp: wf_graph_def)
  with Cons.IH [OF Cons.prems(1) c'] show ?case by simp
qed

lemma path_weight_adjacent:
  "path_weight w g p = Some c \<Longrightarrow> Suc i < length p \<Longrightarrow>
     \<exists>k d. (p ! i, p ! Suc i, k, d) \<in> set (edges g)"
proof (induction w g p arbitrary: c i rule: path_weight.induct)
  case (1 w g)
  then show ?case by simp
next
  case (2 w g x)
  then show ?case by simp
next
  case (3 w g x y rest)
  from "3.prems"(1) obtain e c' where e: "edge_weight w g x y = Some e"
    and c': "path_weight w g (y # rest) = Some c'"
    by (auto split: option.splits)
  show ?case
  proof (cases i)
    case 0
    from edge_weight_attained [OF e] have "(y, e) \<in> set (out_edges w g x)" .
    then obtain k d where "(x, y, k, d) \<in> set (edges g)" by (auto simp: out_edges_def)
    with 0 show ?thesis by auto
  next
    case (Suc j)
    with "3.prems"(2) have "Suc j < length (y # rest)" by simp
    from "3.IH" [OF e c' this] Suc show ?thesis by simp
  qed
qed

lemmas router_eval =
  calculate_new_path_def shortest_path_def frontier_def label_dist_def out_edges_def relax_edge_def
  edge_weight_def walk_def Let_def

text \<open>
  C4 as stated fails when the target is the source: the target is reachable (by the walk
  that stays), and the route comes back empty, so it does not include the target.
\<close>

theorem route_to_own_node_is_empty:
  "walk travel_time (G ex_routes) 0 0 [0] 0
   \<and> \<not> isl (calculate_new_path shortest_path travel_time counting ex_routes (ex_agent\<lparr>destination := 0\<rparr>))
   \<and> path (snd (projr (calculate_new_path shortest_path travel_time counting ex_routes
         (ex_agent\<lparr>destination := 0\<rparr>)))) = []
   \<and> destination (ex_agent\<lparr>destination := 0\<rparr>)
        \<notin> set (path (snd (projr (calculate_new_path shortest_path travel_time counting ex_routes
         (ex_agent\<lparr>destination := 0\<rparr>)))))"
  by (simp add: router_eval ex_routes_def ex_agent_def ex_edge_def)

text \<open>
  C4, amended. For a target that is reachable and is not the source, the route computation
  stores a node sequence that excludes the source, ends in the target, repeats no node and
  steps along edges of the graph; with the source in front it is a walk of minimum weight
  among all walks from the source to the target. For a target that is the source the route
  is empty. (The graph's edges join its nodes and the weights are not negative.)
\<close>

theorem route_is_shortest:
  assumes wf: "wf_graph (G m)" and nn: "nonneg_weights w (G m)"
    and at: "pos a = Some source"
  shows "(source \<noteq> destination a \<longrightarrow> (\<exists>q cq. walk w (G m) source (destination a) q cq) \<longrightarrow>
            (\<exists>p c. calculate_new_path shortest_path w R m a = Inr (m, a\<lparr>path := p\<rparr>)
               \<and> source \<notin> set p \<and> destination a \<in> set p \<and> last p = destination a
               \<and> distinct p \<and> adjacent_steps (G m) (source # p)
               \<and> walk w (G m) source (destination a) (source # p) c
               \<and> (\<forall>q' c'. walk w (G m) source (destination a) q' c' \<longrightarrow> c \<le> c')))
       \<and> (source = destination a \<longrightarrow> source \<in> set (nodes (G m)) \<longrightarrow>
            calculate_new_path shortest_path w R m a = Inr (m, a\<lparr>path := []\<rparr>))"
proof (intro conjI impI)
  assume ne: "source \<noteq> destination a"
    and reach: "\<exists>q cq. walk w (G m) source (destination a) q cq"
  then obtain q cq where q: "walk w (G m) source (destination a) q cq" by blast
  then obtain y rest where q': "q = source # y # rest"
    using ne by (cases q; cases "tl q") (auto simp: walk_def)
  from q q' have "path_weight w (G m) (source # y # rest) = Some cq" by (simp add: walk_def)
  from path_weight_nodes [OF wf this] have sub: "set q \<subseteq> set (nodes (G m))"
    unfolding q' .
  have ends: "hd q = source" "last q = destination a" using q by (simp_all add: walk_def)
  have "hd q \<in> set q" "last q \<in> set q" using q' by simp_all
  then have inq: "source \<in> set q" "destination a \<in> set q" unfolding ends .
  have src: "source \<in> set (nodes (G m))" using sub inq(1) by (rule subsetD)
  have dst: "destination a \<in> set (nodes (G m))" using sub inq(2) by (rule subsetD)
  from shortest_path_complete [OF wf nn src dst q] obtain p0 where
    sp: "shortest_path w (G m) source (destination a) = Inr p0" by blast
  from shortest_path_sound [OF wf nn sp] obtain c where
    w0: "walk w (G m) source (destination a) p0 c" and d0: "distinct p0"
    and least: "\<forall>q' c'. walk w (G m) source (destination a) q' c' \<longrightarrow> c \<le> c'"
    by blast
  from w0 obtain p where p0: "p0 = source # p" by (cases p0) (auto simp: walk_def)
  from w0 p0 ne have pne: "p \<noteq> []" by (auto simp: walk_def)
  have calc: "calculate_new_path shortest_path w R m a = Inr (m, a\<lparr>path := p\<rparr>)"
    using at sp p0 by (simp add: calculate_new_path_def)
  have last: "last p = destination a" using w0 p0 pne by (simp add: walk_def)
  then have mem: "destination a \<in> set p" using last_in_set [OF pne] by simp
  have adj: "adjacent_steps (G m) (source # p)"
    using w0 p0 path_weight_adjacent [of w "G m" "source # p" c]
    by (auto simp: adjacent_steps_def walk_def)
  show "\<exists>p c. calculate_new_path shortest_path w R m a = Inr (m, a\<lparr>path := p\<rparr>)
               \<and> source \<notin> set p \<and> destination a \<in> set p \<and> last p = destination a
               \<and> distinct p \<and> adjacent_steps (G m) (source # p)
               \<and> walk w (G m) source (destination a) (source # p) c
               \<and> (\<forall>q' c'. walk w (G m) source (destination a) q' c' \<longrightarrow> c \<le> c')"
    using calc d0 p0 last mem adj w0 least by auto
next
  assume eq: "source = destination a" and src: "source \<in> set (nodes (G m))"
  have "walk w (G m) source source [source] 0" by (simp add: walk_def)
  from shortest_path_complete [OF wf nn src src this] obtain p0 where
    sp: "shortest_path w (G m) source source = Inr p0" by blast
  from shortest_path_sound [OF wf nn sp] obtain c where
    w0: "walk w (G m) source source p0 c" and d0: "distinct p0" by blast
  have "p0 = [source]"
  proof (cases p0)
    case Nil
    with w0 show ?thesis by (simp add: walk_def)
  next
    case (Cons x xs)
    with w0 have x: "x = source" by (simp add: walk_def)
    show ?thesis
    proof (cases xs)
      case Nil
      with Cons x show ?thesis by simp
    next
      case (Cons z zs)
      with \<open>p0 = x # xs\<close> w0 x have "last (z # zs) = source" by (simp add: walk_def)
      then have "source \<in> set (z # zs)" using last_in_set [of "z # zs"] by simp
      with d0 \<open>p0 = x # xs\<close> Cons x show ?thesis by simp
    qed
  qed
  with sp eq at show "calculate_new_path shortest_path w R m a = Inr (m, a\<lparr>path := []\<rparr>)"
    by (simp add: calculate_new_path_def)
qed

theorem route_is_shortest_witness:
  "calculate_new_path shortest_path travel_time counting ex_routes ex_agent
     = Inr (ex_routes, ex_agent\<lparr>path := [1, 2]\<rparr>)
   \<and> walk travel_time (G ex_routes) 0 2 [0, 1, 2] 20
   \<and> \<not> (\<exists>q' c'. walk travel_time (G ex_routes) 0 2 q' c' \<and> c' < 20)"
proof -
  have wf: "wf_graph (G ex_routes)" by (simp add: wf_graph_def ex_routes_def)
  have nn: "nonneg_weights travel_time (G ex_routes)"
    by (simp add: nonneg_weights_def ex_routes_def ex_edge_def)
  have at: "pos ex_agent = Some 0" by (simp add: ex_agent_def)
  have ne: "0 \<noteq> destination ex_agent" by (simp add: ex_agent_def)
  have direct: "walk travel_time (G ex_routes) 0 (destination ex_agent) [0, 2] 30"
    by (simp add: router_eval ex_routes_def ex_agent_def ex_edge_def)
  have calc: "calculate_new_path shortest_path travel_time counting ex_routes ex_agent
     = Inr (ex_routes, ex_agent\<lparr>path := [1, 2]\<rparr>)"
    by (simp add: router_eval ex_routes_def ex_agent_def ex_edge_def)
  have w20: "walk travel_time (G ex_routes) 0 2 [0, 1, 2] 20"
    by (simp add: router_eval ex_routes_def ex_edge_def)
  from route_is_shortest [OF wf nn at, of counting] ne direct obtain p c where
    1: "calculate_new_path shortest_path travel_time counting ex_routes ex_agent
          = Inr (ex_routes, ex_agent\<lparr>path := p\<rparr>)"
    and 2: "walk travel_time (G ex_routes) 0 (destination ex_agent) (0 # p) c"
    and 3: "\<forall>q' c'. walk travel_time (G ex_routes) 0 (destination ex_agent) q' c' \<longrightarrow> c \<le> c'"
    by blast
  from 1 calc have "ex_agent\<lparr>path := p\<rparr> = ex_agent\<lparr>path := [1, 2]\<rparr>" by simp
  then have "path (ex_agent\<lparr>path := p\<rparr>) = path (ex_agent\<lparr>path := [1, 2]\<rparr>)" by (rule arg_cong)
  then have p: "p = [1, 2]" by simp
  from 2 w20 have c: "c = 20" unfolding p by (simp add: walk_def)
  from 3 have "\<not> (\<exists>q' c'. walk travel_time (G ex_routes) 0 2 q' c' \<and> c' < 20)"
    unfolding c by (fastforce simp: ex_agent_def)
  with calc w20 show ?thesis by simp
qed

section \<open>Lanes on load\<close>

lemma truncate_toward_zero_positive: "0 < truncate_toward_zero x \<longleftrightarrow> 1 \<le> x"
proof (cases "0 \<le> x")
  case True
  then show ?thesis by (simp add: truncate_toward_zero_def)
next
  case False
  then have "\<lceil>x\<rceil> \<le> 0" by (simp add: ceiling_le_iff)
  with False show ?thesis by (simp add: truncate_toward_zero_def)
qed

lemma cast_edges_fails:
  "(u, v, k, data) \<in> set es \<Longrightarrow> cast_lanes flt (lanes_attr data) = Inl e \<Longrightarrow> isl (cast_edges flt es)"
proof (induction es)
  case Nil
  then show ?case by simp
next
  case (Cons x es)
  obtain u' v' k' data' where x: "x = (u', v', k', data')" by (cases x) auto
  show ?case
  proof (cases "(u, v, k, data) = x")
    case True
    with x Cons.prems(2) show ?thesis by (simp add: cast_edge_def)
  next
    case False
    with Cons.prems have "(u, v, k, data) \<in> set es" by simp
    from Cons.IH [OF this Cons.prems(2)] x show ?thesis
      by (auto split: sum.splits)
  qed
qed

lemma cast_edges_lanes:
  "cast_edges flt es = Inr es' \<Longrightarrow>
     map (\<lambda>(u, v, k, data). cast_lanes flt (lanes_attr data)) es
       = map (\<lambda>(u, v, k, d). Inr (lanes d)) es'"
proof (induction es arbitrary: es')
  case Nil
  then show ?case by simp
next
  case (Cons x es)
  obtain u v k data where x: "x = (u, v, k, data)" by (cases x) auto
  from Cons.prems x obtain d es1 where
    1: "cast_edge flt data = Inr d" and 2: "cast_edges flt es = Inr es1" and 3: "es' = (u, v, k, d) # es1"
    by (auto split: sum.splits)
  from 1 have "cast_lanes flt (lanes_attr data) = Inr (lanes d)"
    by (auto simp: cast_edge_def split: sum.splits)
  with Cons.IH [OF 2] x 3 show ?case by simp
qed

text \<open>
  C9 as stated fails: a lanes value that \<^verbatim>\<open>float\<close> rejects, such as \<^verbatim>\<open>'2;3'\<close>, is not
  replaced by 1 but raises \<^verbatim>\<open>ValueError\<close> out of \<^verbatim>\<open>setup\<close>; and the value \<^verbatim>\<open>'0'\<close> is
  taken as it is, which is not a positive lane count.
\<close>

theorem malformed_lanes_abort_loading:
  "cast_lanes decimal_float (Some (Str ''2;3'')) = Inl ValueError
   \<and> setup9c decimal_float shortest_path counting ex_bad_lanes 1 0 = Inl ValueError
   \<and> cast_lanes decimal_float (Some (Str ''0'')) = Inr 0"
  by (simp add: cast_lanes_def py_float_def py_int_def truncate_toward_zero_def
      decimal_float_examples setup9c_def ex_bad_lanes_def cast_edge_def)

text \<open>
  C9, amended. When the network is loaded, an edge without a lanes attribute gets lanes 1.
  A stored string that \<^verbatim>\<open>float\<close> reads as a finite number is used, truncated toward zero,
  and so is positive exactly when the stored number is at least 1. A stored string that
  \<^verbatim>\<open>float\<close> reads as an infinity raises the \<^verbatim>\<open>OverflowError\<close> of \<^verbatim>\<open>int\<close>, one that it reads
  as \<^verbatim>\<open>nan\<close> the \<^verbatim>\<open>ValueError\<close> of \<^verbatim>\<open>int\<close>, and one that \<^verbatim>\<open>float\<close> rejects the exception
  of \<^verbatim>\<open>float\<close>. A stored list that starts with a string is cast as that string. A lanes
  cast that raises makes the whole load fail, and whenever the load succeeds the lanes of
  every edge are the cast of what was stored.
\<close>

theorem lanes_on_load:
  assumes "flt ''1'' = Inr (Finite 1)"
  shows "cast_lanes flt None = Inr 1
    \<and> (\<forall>s x. flt s = Inr (Finite x) \<longrightarrow>
          cast_lanes flt (Some (Str s)) = Inr (truncate_toward_zero x)
          \<and> (0 < truncate_toward_zero x \<longleftrightarrow> 1 \<le> x))
    \<and> (\<forall>s. flt s = Inr PosInf \<or> flt s = Inr NegInf \<longrightarrow>
          cast_lanes flt (Some (Str s)) = Inl OverflowError)
    \<and> (\<forall>s. flt s = Inr NaN \<longrightarrow> cast_lanes flt (Some (Str s)) = Inl ValueError)
    \<and> (\<forall>s e. flt s = Inl e \<longrightarrow> cast_lanes flt (Some (Str s)) = Inl e)
    \<and> (\<forall>s others. cast_lanes flt (Some (Lst (Str s # others))) = cast_lanes flt (Some (Str s)))
    \<and> (\<forall>loaded u v k data e sp R n seed.
          (u, v, k, data) \<in> set (edges loaded) \<longrightarrow> cast_lanes flt (lanes_attr data) = Inl e
          \<longrightarrow> isl (setup9c flt sp R loaded n seed))
    \<and> (\<forall>loaded sp R n seed m ags.
          setup9c flt sp R loaded n seed = Inr (m, ags) \<longrightarrow>
          map (\<lambda>(u, v, k, data). cast_lanes flt (lanes_attr data)) (edges loaded)
            = map (\<lambda>(u, v, k, d). Inr (lanes d)) (edges (G m)))"
proof (intro conjI allI impI)
  show "cast_lanes flt None = Inr 1"
    using assms by (simp add: cast_lanes_def py_float_def py_int_def truncate_toward_zero_def)
next
  fix s x assume "flt s = Inr (Finite x)"
  then show "cast_lanes flt (Some (Str s)) = Inr (truncate_toward_zero x)"
    by (simp add: cast_lanes_def py_float_def py_int_def)
next
  fix s x assume "flt s = Inr (Finite x)"
  show "(0 < truncate_toward_zero x) = (1 \<le> x)" by (rule truncate_toward_zero_positive)
next
  fix s assume "flt s = Inr PosInf \<or> flt s = Inr NegInf"
  then show "cast_lanes flt (Some (Str s)) = Inl OverflowError"
    by (auto simp: cast_lanes_def py_float_def py_int_def)
next
  fix s assume "flt s = Inr NaN"
  then show "cast_lanes flt (Some (Str s)) = Inl ValueError"
    by (simp add: cast_lanes_def py_float_def py_int_def)
next
  fix s e assume "flt s = Inl e"
  then show "cast_lanes flt (Some (Str s)) = Inl e"
    by (simp add: cast_lanes_def py_float_def)
next
  fix s others
  show "cast_lanes flt (Some (Lst (Str s # others))) = cast_lanes flt (Some (Str s))"
    by (simp add: cast_lanes_def)
next
  fix loaded :: "raw_edge_data graph" and u v k data e sp R n seed
  assume "(u, v, k, data) \<in> set (edges loaded)" and "cast_lanes flt (lanes_attr data) = Inl e"
  then have "isl (cast_edges flt (edges loaded))" by (rule cast_edges_fails)
  then show "isl (setup9c flt sp R loaded n seed)"
    by (cases "cast_edges flt (edges loaded)") (simp_all add: setup9c_def)
next
  fix loaded sp R n seed m ags
  assume "setup9c flt sp R loaded n seed = Inr (m, ags)"
  from setup9c_edges [OF this] have "cast_edges flt (edges loaded) = Inr (edges (G m))" by simp
  then show "map (\<lambda>(u, v, k, data). cast_lanes flt (lanes_attr data)) (edges loaded)
            = map (\<lambda>(u, v, k, d). Inr (lanes d)) (edges (G m))"
    by (rule cast_edges_lanes)
qed

theorem lanes_on_load_witness:
  "cast_lanes decimal_float None = Inr 1
   \<and> cast_lanes decimal_float (Some (Str ''2'')) = Inr 2
   \<and> cast_lanes decimal_float (Some (Lst [Str ''2'', Str ''3''])) = Inr 2
   \<and> cast_lanes decimal_float (Some (Str ''inf'')) = Inl OverflowError
   \<and> cast_lanes decimal_float (Some (Str ''nan'')) = Inl ValueError
   \<and> cast_lanes decimal_float (Some (Str ''2;3'')) = Inl ValueError
   \<and> isl (setup9c decimal_float shortest_path counting ex_bad_lanes 1 0)
   \<and> map (\<lambda>(u, v, k, d). lanes d)
         (edges (G (fst (projr (setup9c decimal_float shortest_path counting ex_loaded 1 0)))))
       = [1, 2]"
proof -
  have one: "decimal_float ''1'' = Inr (Finite 1)" by (simp add: decimal_float_examples)
  have two: "decimal_float ''2'' = Inr (Finite 2)" by (simp add: decimal_float_examples)
  have inf: "decimal_float ''inf'' = Inr PosInf \<or> decimal_float ''inf'' = Inr NegInf"
    by (simp add: decimal_float_examples)
  have nan: "decimal_float ''nan'' = Inr NaN" by (simp add: decimal_float_examples)
  have bad: "decimal_float ''2;3'' = Inl ValueError" by (simp add: decimal_float_examples)
  note th = lanes_on_load [of decimal_float, OF one]
  note absent = th [THEN conjunct1]
  note numeric = th [THEN conjunct2, THEN conjunct1, rule_format]
  note th3 = th [THEN conjunct2, THEN conjunct2]
  note infinite = th3 [THEN conjunct1, rule_format]
  note not_a_number = th3 [THEN conjunct2, THEN conjunct1, rule_format]
  note th5 = th3 [THEN conjunct2, THEN conjunct2]
  note rejected = th5 [THEN conjunct1, rule_format]
  note listed = th5 [THEN conjunct2, THEN conjunct1, rule_format]
  note aborts = th5 [THEN conjunct2, THEN conjunct2, THEN conjunct1, rule_format]
  note loads = th5 [THEN conjunct2, THEN conjunct2, THEN conjunct2, rule_format]
  have 1: "cast_lanes decimal_float None = Inr 1" by (rule absent)
  have 2: "cast_lanes decimal_float (Some (Str ''2'')) = Inr (truncate_toward_zero 2)"
    using numeric [OF two] by simp
  have 3: "cast_lanes decimal_float (Some (Lst [Str ''2'', Str ''3'']))
      = cast_lanes decimal_float (Some (Str ''2''))"
    by (rule listed)
  have 4: "cast_lanes decimal_float (Some (Str ''inf'')) = Inl OverflowError"
    by (rule infinite [OF inf])
  have 5: "cast_lanes decimal_float (Some (Str ''nan'')) = Inl ValueError"
    by (rule not_a_number [OF nan])
  have 6: "cast_lanes decimal_float (Some (Str ''2;3'')) = Inl ValueError"
    by (rule rejected [OF bad])
  have mem: "(0, 1, 0, \<lparr>lanes_attr = Some (Str ''2;3''), speed_kph_attr = None,
                          base_travel_time_attr = None\<rparr>) \<in> set (edges ex_bad_lanes)"
    by (simp add: ex_bad_lanes_def)
  have 7: "isl (setup9c decimal_float shortest_path counting ex_bad_lanes 1 0)"
    by (rule aborts [OF mem]) (simp add: 6)
  let ?su = "setup9c decimal_float shortest_path counting ex_loaded 1 0"
  have su_ok: "\<not> isl ?su" by (simp add: run9c_eval ex_loaded_def)
  then obtain m ags where su: "?su = Inr (m, ags)" by (cases ?su) auto
  have "map (\<lambda>(u, v, k, data). cast_lanes decimal_float (lanes_attr data)) (edges ex_loaded)
      = map (\<lambda>(u, v, k, d). Inr (lanes d)) (edges (G m))"
    by (rule loads [OF su])
  then have "map (\<lambda>(u, v, k, d). (Inr (lanes d) :: pyerr + int)) (edges (G m)) = [Inr 1, Inr 2]"
    by (simp add: ex_loaded_def 1 3 2 truncate_toward_zero_def)
  then have "map projr (map (\<lambda>(u, v, k, d). (Inr (lanes d) :: pyerr + int)) (edges (G m)))
      = map projr [Inr 1 :: pyerr + int, Inr 2]"
    by (rule arg_cong)
  then have 8: "map (\<lambda>(u, v, k, d). lanes d) (edges (G m)) = [1, 2]"
    by (simp add: comp_def case_prod_unfold)
  from 1 2 3 4 5 6 7 8 su show ?thesis by (simp add: truncate_toward_zero_def)
qed

section \<open>Destination redraws\<close>

text \<open>
  C6 as stated fails: in one tick the agent of the example, for which no route exists,
  redraws its destination three times (the generator, which counts its draws, goes from 0
  to 3): in the handler of the scheduled recompute, before the retry, and again in the
  handler of the retry.
\<close>

theorem three_redraws_in_one_tick:
  "rng ex_stuck = 0
   \<and> step9c shortest_path counting ex_stuck ex_stuck_agent
       = Inr (ex_stuck\<lparr>rng := 3\<rparr>, ex_stuck_agent\<lparr>destination := 2\<rparr>)"
  by (simp add: step9c_def follow_path_def router_eval choice_def counting_def
      RECALCULATE_PATH_STEPS_def ex_stuck_def ex_stuck_agent_def ex_edge_def)

lemma choice_redraw:
  "choice R r xs = Inr (d, r') \<Longrightarrow> r' = redraw R (length xs) r"
  by (auto simp: choice_def redraw_def split: if_splits prod.splits)

lemma calculate_new_path_rng:
  assumes "calculate_new_path sp w R m a = Inr (m', a')"
  shows "rng m' = rng m \<or> rng m' = redraw R (length (graph_nodes m)) (rng m)"
proof (cases "rng m' = rng m")
  case True
  then show ?thesis by simp
next
  case False
  with assms obtain d r' where "choice R (rng m) (graph_nodes m) = Inr (d, r')" and "rng m' = r'"
    by (auto simp: calculate_new_path_def split: option.splits sum.splits list.splits if_splits prod.splits)
  with choice_redraw show ?thesis by fastforce
qed

lemma follow_path_rng:
  assumes "follow_path sp w R m a = Inr (m', a')"
  shows "\<exists>k \<le> 2. rng m' = (redraw R (length (graph_nodes m)) ^^ k) (rng m)"
proof (cases "path a = []")
  case False
  with assms have "pop_and_move m a = Inr (m', a')" by (simp add: follow_path_def)
  from pop_and_move_frame [OF this] have "rng m' = (redraw R (length (graph_nodes m)) ^^ 0) (rng m)"
    by simp
  then show ?thesis by blast
next
  case True
  let ?f = "redraw R (length (graph_nodes m))"
  from True assms obtain d r' m1 a1 where
    ch: "choice R (rng m) (graph_nodes m) = Inr (d, r')"
    and c: "calculate_new_path sp w R (m\<lparr>rng := r'\<rparr>) (a\<lparr>destination := d\<rparr>) = Inr (m1, a1)"
    and rest: "(if path a1 = [] then Inr (m1, a1) else pop_and_move m1 a1) = Inr (m', a')"
    by (auto simp: follow_path_def split: sum.splits prod.splits)
  have r': "r' = ?f (rng m)" using choice_redraw [OF ch] .
  from calculate_new_path_rng [OF c] have r1: "rng m1 = ?f (rng m) \<or> rng m1 = ?f (?f (rng m))"
    by (simp add: r')
  have "rng m' = rng m1"
  proof (cases "path a1 = []")
    case True
    with rest show ?thesis by simp
  next
    case False
    with rest have "pop_and_move m1 a1 = Inr (m', a')" by simp
    from pop_and_move_frame [OF this] show ?thesis by simp
  qed
  with r1 have "rng m' = (?f ^^ 1) (rng m) \<or> rng m' = (?f ^^ 2) (rng m)"
    by (simp add: numeral_2_eq_2)
  then show ?thesis
  proof
    assume "rng m' = (?f ^^ 1) (rng m)"
    then show ?thesis by (intro exI [of _ 1]) simp
  next
    assume "rng m' = (?f ^^ 2) (rng m)"
    then show ?thesis by (intro exI [of _ 2]) simp
  qed
qed

lemma calculate_new_path_query:
  assumes "sp' w (G m) (the (pos a)) (destination a) = sp w (G m) (the (pos a)) (destination a)"
  shows "calculate_new_path sp' w R m a = calculate_new_path sp w R m a"
  using assms by (cases "pos a") (simp_all add: calculate_new_path_def)

lemma follow_path_query:
  "\<exists>p d. \<forall>sp'. sp' w (G m) p d = sp w (G m) p d \<longrightarrow>
           follow_path sp' w R m a = follow_path sp w R m a"
proof (cases "path a = []")
  case False
  then have "follow_path sp' w R m a = follow_path sp w R m a" for sp'
    by (simp add: follow_path_def)
  then show ?thesis by blast
next
  case True
  show ?thesis
  proof (cases "choice R (rng m) (graph_nodes m)")
    case (Inl e)
    with True have "follow_path sp' w R m a = follow_path sp w R m a" for sp'
      by (simp add: follow_path_def)
    then show ?thesis by blast
  next
    case (Inr x)
    obtain d r' where x: "x = (d, r')" by (cases x)
    have "follow_path sp' w R m a = follow_path sp w R m a"
      if "sp' w (G m) (the (pos a)) d = sp w (G m) (the (pos a)) d" for sp'
    proof -
      have "calculate_new_path sp' w R (m\<lparr>rng := r'\<rparr>) (a\<lparr>destination := d\<rparr>)
          = calculate_new_path sp w R (m\<lparr>rng := r'\<rparr>) (a\<lparr>destination := d\<rparr>)"
        by (rule calculate_new_path_query) (simp add: that)
      then show ?thesis using Inr x True by (simp add: follow_path_def)
    qed
    then show ?thesis by blast
  qed
qed

lemma step9c_query:
  "\<exists>p1 d1 p2 d2. \<forall>sp'.
      sp' travel_time (G m) p1 d1 = sp travel_time (G m) p1 d1 \<longrightarrow>
      sp' travel_time (G m) p2 d2 = sp travel_time (G m) p2 d2 \<longrightarrow>
      step9c sp' R m a = step9c sp R m a"
proof (cases "t m mod RECALCULATE_PATH_STEPS = 0")
  case False
  from follow_path_query [of travel_time m sp R a] obtain p d where
    f: "\<And>sp'. sp' travel_time (G m) p d = sp travel_time (G m) p d \<Longrightarrow>
           follow_path sp' travel_time R m a = follow_path sp travel_time R m a" by blast
  have "step9c sp' R m a = step9c sp R m a"
    if "sp' travel_time (G m) p d = sp travel_time (G m) p d" for sp'
  proof -
    have "follow_path sp' travel_time R m a = follow_path sp travel_time R m a"
      using that by (rule f)
    with False show ?thesis by (simp add: step9c_def)
  qed
  then show ?thesis by blast
next
  case True
  let ?p1 = "the (pos a)" and ?d1 = "destination a"
  show ?thesis
  proof (cases "calculate_new_path sp travel_time R m a")
    case (Inl e)
    have "step9c sp' R m a = step9c sp R m a"
      if "sp' travel_time (G m) ?p1 ?d1 = sp travel_time (G m) ?p1 ?d1" for sp'
    proof -
      have "calculate_new_path sp' travel_time R m a = calculate_new_path sp travel_time R m a"
        using that by (rule calculate_new_path_query)
      with True Inl show ?thesis by (simp add: step9c_def)
    qed
    then show ?thesis by blast
  next
    case (Inr x)
    obtain m1 a1 where x: "x = (m1, a1)" by (cases x)
    from calculate_new_path_frame [OF Inr [unfolded x]] have g: "G m1 = G m" by simp
    from follow_path_query [of travel_time m1 sp R a1] obtain p d where
      f: "\<And>sp'. sp' travel_time (G m) p d = sp travel_time (G m) p d \<Longrightarrow>
           follow_path sp' travel_time R m1 a1 = follow_path sp travel_time R m1 a1"
      unfolding g by blast
    have "step9c sp' R m a = step9c sp R m a"
      if 1: "sp' travel_time (G m) ?p1 ?d1 = sp travel_time (G m) ?p1 ?d1"
        and 2: "sp' travel_time (G m) p d = sp travel_time (G m) p d" for sp'
    proof -
      have c: "calculate_new_path sp' travel_time R m a = calculate_new_path sp travel_time R m a"
        using 1 by (rule calculate_new_path_query)
      have fp: "follow_path sp' travel_time R m1 a1 = follow_path sp travel_time R m1 a1"
        using 2 by (rule f)
      from True show ?thesis by (simp add: step9c_def c Inr x fp)
    qed
    then show ?thesis by blast
  qed
qed

text \<open>
  C6, amended. The fallback is bounded but not single: a step of an agent makes at most
  three destination redraws, and there is no loop. When the route is empty, a destination
  is drawn and the retry finds no path, the destination is drawn once more and the agent
  keeps its position for that tick: the model changes in its random source only. The step
  asks the router at most twice (the scheduled recompute and one retry): its outcome is
  fixed by the router's answers to two queries.
\<close>

theorem redraws_bounded:
  "(\<forall>m' a'. step9c sp R m a = Inr (m', a') \<longrightarrow>
       (\<exists>k \<le> 3. rng m' = (redraw R (length (graph_nodes m)) ^^ k) (rng m)))
   \<and> (\<forall>p d r1 d2 r2 w.
        path a = [] \<longrightarrow> pos a = Some p \<longrightarrow> choice R (rng m) (graph_nodes m) = Inr (d, r1)
        \<longrightarrow> sp w (G m) p d = Inl NetworkXNoPath \<longrightarrow> choice R r1 (graph_nodes m) = Inr (d2, r2)
        \<longrightarrow> follow_path sp w R m a = Inr (m\<lparr>rng := r2\<rparr>, a\<lparr>destination := d2, path := []\<rparr>))
   \<and> (\<exists>p1 d1 p2 d2. \<forall>sp'.
        sp' travel_time (G m) p1 d1 = sp travel_time (G m) p1 d1 \<longrightarrow>
        sp' travel_time (G m) p2 d2 = sp travel_time (G m) p2 d2 \<longrightarrow>
        step9c sp' R m a = step9c sp R m a)"
proof (intro conjI allI impI)
  fix m' a' assume st: "step9c sp R m a = Inr (m', a')"
  let ?f = "redraw R (length (graph_nodes m))"
  show "\<exists>k \<le> 3. rng m' = (?f ^^ k) (rng m)"
  proof (cases "t m mod RECALCULATE_PATH_STEPS = 0")
    case False
    with st have "follow_path sp travel_time R m a = Inr (m', a')" by (simp add: step9c_def)
    from follow_path_rng [OF this] obtain k where "k \<le> 2" "rng m' = (?f ^^ k) (rng m)" by blast
    then show ?thesis by (intro exI [of _ k]) simp
  next
    case True
    with st obtain m1 a1 where
      c: "calculate_new_path sp travel_time R m a = Inr (m1, a1)"
      and f: "follow_path sp travel_time R m1 a1 = Inr (m', a')"
      by (auto simp: step9c_def split: sum.splits prod.splits)
    from calculate_new_path_frame [OF c] have gn: "graph_nodes m1 = graph_nodes m" by simp
    from follow_path_rng [OF f] obtain k where
      k: "k \<le> 2" "rng m' = (?f ^^ k) (rng m1)" unfolding gn by blast
    from calculate_new_path_rng [OF c] have "rng m1 = (?f ^^ 0) (rng m) \<or> rng m1 = (?f ^^ 1) (rng m)"
      by simp
    then have "\<exists>j \<le> 1. rng m1 = (?f ^^ j) (rng m)"
    proof
      assume "rng m1 = (?f ^^ 0) (rng m)"
      then show ?thesis by (intro exI [of _ 0]) simp
    next
      assume "rng m1 = (?f ^^ 1) (rng m)"
      then show ?thesis by (intro exI [of _ 1]) simp
    qed
    then obtain j where j: "j \<le> 1" "rng m1 = (?f ^^ j) (rng m)" by blast
    have "rng m' = (?f ^^ (k + j)) (rng m)" using k(2) j(2) by (simp add: funpow_add)
    moreover have "k + j \<le> 3" using k(1) j(1) by simp
    ultimately show ?thesis by blast
  qed
next
  fix p d r1 d2 r2 w
  assume "path a = []" "pos a = Some p" "choice R (rng m) (graph_nodes m) = Inr (d, r1)"
    "sp w (G m) p d = Inl NetworkXNoPath" "choice R r1 (graph_nodes m) = Inr (d2, r2)"
  then show "follow_path sp w R m a = Inr (m\<lparr>rng := r2\<rparr>, a\<lparr>destination := d2, path := []\<rparr>)"
    by (simp add: follow_path_def calculate_new_path_def)
next
  show "\<exists>p1 d1 p2 d2. \<forall>sp'.
        sp' travel_time (G m) p1 d1 = sp travel_time (G m) p1 d1 \<longrightarrow>
        sp' travel_time (G m) p2 d2 = sp travel_time (G m) p2 d2 \<longrightarrow>
        step9c sp' R m a = step9c sp R m a"
    by (rule step9c_query)
qed

theorem redraws_bounded_witness:
  "(\<exists>k \<le> 3. rng (ex_stuck\<lparr>rng := 3\<rparr>) = (redraw counting (length (graph_nodes ex_stuck)) ^^ k) (rng ex_stuck))
   \<and> follow_path shortest_path travel_time counting ex_stuck ex_stuck_agent
       = Inr (ex_stuck\<lparr>rng := 2\<rparr>, ex_stuck_agent\<lparr>destination := 1, path := []\<rparr>)"
proof -
  note th = redraws_bounded [of shortest_path counting ex_stuck ex_stuck_agent]
  have st: "step9c shortest_path counting ex_stuck ex_stuck_agent
       = Inr (ex_stuck\<lparr>rng := 3\<rparr>, ex_stuck_agent\<lparr>destination := 2\<rparr>)"
    by (simp add: step9c_def follow_path_def router_eval choice_def counting_def
        RECALCULATE_PATH_STEPS_def ex_stuck_def ex_stuck_agent_def ex_edge_def)
  have 1: "\<exists>k \<le> 3. rng (ex_stuck\<lparr>rng := 3\<rparr>)
      = (redraw counting (length (graph_nodes ex_stuck)) ^^ k) (rng ex_stuck)"
    by (rule th [THEN conjunct1, rule_format, OF st])
  have 2: "follow_path shortest_path travel_time counting ex_stuck ex_stuck_agent
       = Inr (ex_stuck\<lparr>rng := 2\<rparr>, ex_stuck_agent\<lparr>destination := 1, path := []\<rparr>)"
  proof (rule th [THEN conjunct2, THEN conjunct1, rule_format])
    show "path ex_stuck_agent = []" "pos ex_stuck_agent = Some 2"
      by (simp_all add: ex_stuck_agent_def)
    show "choice counting (rng ex_stuck) (graph_nodes ex_stuck) = Inr (0, 1)"
      by (simp add: choice_def counting_def ex_stuck_def)
    show "shortest_path travel_time (G ex_stuck) 2 0 = Inl NetworkXNoPath"
      by (simp add: router_eval ex_stuck_def ex_edge_def)
    show "choice counting 1 (graph_nodes ex_stuck) = Inr (1, 2)"
      by (simp add: choice_def counting_def ex_stuck_def)
  qed
  from 1 2 show ?thesis by (rule conjI)
qed

section \<open>Initial placement and determinism (step8)\<close>

lemmas run8_eval =
  setup8_def apply_highway_closure_def tagged_def choice_def counting_def place_agent_def
  empty_grid_def router_eval run8_def sim_step8_def update8_def follow_path_def pop_and_move_def
  move_agent_def neighbors_def

text \<open>
  C7. The claim is what the comment in step8 announces
  (\<^verbatim>\<open># Ensure agent spawns on a valid, non-isolated node\<close>), but the guard under it tests
  \<^verbatim>\<open>pos not in self.G\<close>, which no drawn position satisfies, and step9c has no guard at all.
  In the example the closure of the motorways leaves node 1 without an edge, the agent is
  drawn onto node 1 and stays there: nothing is re-drawn.
\<close>

theorem agent_starts_on_isolated_node:
  "\<not> isl (setup8 shortest_path counting counting ex_base 1 0 0)
   \<and> map pos (fst (snd (projr (setup8 shortest_path counting counting ex_base 1 0 0)))) = [Some 1]
   \<and> neighbors (G (fst (projr (setup8 shortest_path counting counting ex_base 1 0 0)))) 1 = Inr []
   \<and> (1, 0) \<in> set (map (\<lambda>(u, v, k, d). (u, v)) (edges ex_base))
   \<and> snd (snd (projr (setup8 shortest_path counting counting ex_base 1 0 0))) = 0"
  by (simp add: run8_eval ex_base_def)

lemma choices_subset:
  "choices R r xs k = Inr (ys, r') \<Longrightarrow> set ys \<subseteq> set xs"
proof (induction k arbitrary: r ys)
  case 0
  then show ?case by simp
next
  case (Suc k)
  from Suc.prems obtain i r1 ys1 where
    ne: "xs \<noteq> []" and 1: "choices R r1 xs k = Inr (ys1, r')"
    and 2: "ys = xs ! (i mod length xs) # ys1"
    by (auto split: if_splits prod.splits sum.splits)
  from ne have "xs ! (i mod length xs) \<in> set xs" by simp
  with Suc.IH [OF 1] 2 show ?case by simp
qed

lemma place_agents8_ignores_global:
  "set ps \<subseteq> set (nodes (G m)) \<Longrightarrow>
     place_agents8 sp R Q m q as ps =
       (case place_agents sp length_m R m as ps of
          Inl e \<Rightarrow> Inl e
        | Inr (m', as') \<Rightarrow> Inr (m', as', q))"
proof (induction as arbitrary: m q ps)
  case Nil
  then show ?case by simp
next
  case (Cons a as)
  show ?case
  proof (cases ps)
    case Nil
    then show ?thesis by simp
  next
    case (Cons p ps')
    from Cons.prems Cons have p: "p \<in> set (nodes (G m))" and ps: "set ps' \<subseteq> set (nodes (G m))"
      by simp_all
    show ?thesis
    proof (cases "place_agent sp length_m R m a p")
      case (Inl e)
      with p Cons show ?thesis by simp
    next
      case (Inr r)
      obtain m1 a1 where r: "r = (m1, a1)" by (cases r)
      from place_agent_frame [OF Inr [unfolded r]] have "G m1 = G m" by simp
      with ps have "set ps' \<subseteq> set (nodes (G m1))" by simp
      from Cons.IH [OF this, of q] p Inr r Cons show ?thesis
        by (simp split: sum.splits prod.splits)
    qed
  qed
qed

lemma setup8_ignores_global:
  "setup8 sp R Q G_base n seed q =
     (case setup8 sp R Q' G_base n seed q' of
        Inl e \<Rightarrow> Inl e
      | Inr (m, as, q'') \<Rightarrow> Inr (m, as, q))"
proof -
  let ?g = "apply_highway_closure G_base"
  show ?thesis
  proof (cases "create_agents R seed (nodes ?g) [1 ..< Suc n]")
    case (Inl e)
    then show ?thesis by (simp add: setup8_def Let_def del: upt_Suc)
  next
    case (Inr x)
    obtain agents r1 where x: "x = (agents, r1)" by (cases x)
    show ?thesis
    proof (cases "choices R r1 (nodes ?g) n")
      case (Inl e)
      with Inr x show ?thesis by (simp add: setup8_def Let_def del: upt_Suc)
    next
      case (Inr y)
      obtain ps r2 where y: "y = (ps, r2)" by (cases y)
      let ?m = "\<lparr>G = ?g, graph_nodes = nodes ?g, grid = empty_grid (nodes ?g),
                  agent_positions = Map.empty, rng = r2, t = 0\<rparr>"
      from choices_subset [OF Inr [unfolded y]] have sub: "set ps \<subseteq> set (nodes (G ?m))" by simp
      have l: "setup8 sp R Q G_base n seed q = place_agents8 sp R Q ?m q agents ps"
        using \<open>create_agents R seed (nodes ?g) [1 ..< Suc n] = Inr x\<close> x Inr y
        by (simp add: setup8_def Let_def del: upt_Suc)
      have r: "setup8 sp R Q' G_base n seed q' = place_agents8 sp R Q' ?m q' agents ps"
        using \<open>create_agents R seed (nodes ?g) [1 ..< Suc n] = Inr x\<close> x Inr y
        by (simp add: setup8_def Let_def del: upt_Suc)
      show ?thesis
        unfolding l r
        unfolding place_agents8_ignores_global [OF sub]
        by (simp split: sum.splits prod.splits)
    qed
  qed
qed

text \<open>
  C8. The run of step8 is a function of the seed of the shared random source, the network,
  the agent count and the step count: the recorded positions after \<^verbatim>\<open>setup\<close> and after
  every step do not depend on the generator of the global \<^verbatim>\<open>random\<close> module or on its
  state, the only other source of randomness in the scripts (the guard that would draw from
  it never fires). step6 and step9c draw from the shared source only.
\<close>

theorem run_is_function_of_seed:
  "run8 sp R Q G_base n seed q steps = run8 sp R Q' G_base n seed q' steps"
proof -
  have "run8 sp R Q G_base n seed q steps = run8 sp R Q' G_base n seed q' steps"
    for Q :: "'q1 random_source" and Q' :: "'q2 random_source" and q q'
    unfolding run8_def
    by (subst setup8_ignores_global [of sp R Q G_base n seed q Q' q'])
      (simp split: sum.splits prod.splits)
  then show ?thesis .
qed

theorem run_is_function_of_seed_witness:
  "run8 shortest_path counting counting ex_base 1 0 0 2
     = run8 shortest_path counting other_generator ex_base 1 0 True 2
   \<and> run8 shortest_path counting counting ex_base 1 0 0 2 = Inr [[Some 1], [Some 1], [Some 1]]"
proof -
  have "run8 shortest_path counting counting ex_base 1 0 0 2 = Inr [[Some 1], [Some 1], [Some 1]]"
    by (simp add: run8_eval ex_base_def numeral_2_eq_2)
  with run_is_function_of_seed [of shortest_path counting counting ex_base 1 0 0 2 other_generator True]
  show ?thesis by simp
qed

end
